theory Spec2Isabelle
  imports Main
begin

section \<open>Data model\<close>

text \<open>
  The driver \<^verbatim>\<open>morph.go\<close> orchestrates external collaborators (packages \<^verbatim>\<open>nix\<close>,
  \<^verbatim>\<open>secrets\<close>, \<^verbatim>\<open>ssh\<close>, \<^verbatim>\<open>vault\<close>, \<^verbatim>\<open>healthchecks\<close>, \<^verbatim>\<open>filter\<close>, \<^verbatim>\<open>assets\<close>).
  Go \<^verbatim>\<open>error\<close> values are opaque messages. A \<^verbatim>\<open>nix.Host\<close> carries the fields the
  driver reads. \<^verbatim>\<open>host.Secrets\<close> is a Go map; it is an association list here, in the
  order in which this run's \<^verbatim>\<open>range\<close> visits it.
\<close>

type_synonym err = string

record secret =
  Source :: string
  Destination :: string
  Owner :: string
  Permissions :: string

record destinationFile =
  Path :: string
  FileOwner :: string
  FilePermissions :: string

record vaultOptions =
  Enable :: bool
  DestinationFile :: destinationFile

record host =
  TargetHost :: string
  Secrets :: "(string \<times> secret) list"
  Vault :: vaultOptions

text \<open>A non-nil \<^verbatim>\<open>*hashicorpvault.Client\<close>, and the pair a rekey returns.\<close>

datatype client = Client nat

record creds =
  Accessor :: string
  Token :: string

text \<open>The six values of the \<^verbatim>\<open>switch-action\<close> enum argument and the two commands.\<close>

datatype action = Build | PushAction | DryActivate | Test | Switch | Boot

datatype command = Deploy | CheckHealth

text \<open>The parsed command line and the package-level values fixed before \<^verbatim>\<open>main\<close>.\<close>

record config =
  dryRun :: bool
  selectGlob :: string
  selectEvery :: int
  selectSkip :: int
  selectLimit :: int
  deployDeployment :: string
  switchAction :: action
  deployAskForSudoPasswd :: bool
  deploySkipHealthChecks :: bool
  deployHealthCheckTimeout :: int
  healthCheckDeployment :: string
  healthCheckTimeout :: int
  tempDir :: string
  assetRoot :: string

text \<open>
  What the run does to the outside, in order: one event per collaborator call (the call,
  not its result), per message on standard error, and per progress line that marks a
  decision of the driver. Blank lines and listings on standard output are left out.
\<close>

datatype event =
    EvGetMachines string string
  | EvBuildMachines "host list"
  | EvReadPassword
  | EvGetPathsToPush host
  | EvPush host "string list"
  | EvGetSecretSize secret string
  | EvUploadSecret host string secret string
  | EvUploadFailed
  | EvGetNixSystemPath host
  | EvActivate host string action string
  | EvHealthCheck host int
  | EvAuth string string
  | EvConfigure client
  | EvReKey client host
  | EvOpenFile string
  | EvWriteCreds string creds
  | EvRekeyedMsg host
  | EvRemove string
  | EvVaultWarning err
  | EvVaultEnvMissing
  | EvHaltMsg
  | EvDone host
  | EvTeardown

text \<open>
  The collaborators are parameters: their packages are not part of the driver. Each
  fallible one answers from the history of events so far, so that the same call may fail
  once and succeed later. A result type is the one the driver binds (\<^verbatim>\<open>x, err := ...\<close>);
  for \<^verbatim>\<open>nix.Push\<close>, which the driver calls as a statement, it is the one of the interface
  table of the specification, \<^verbatim>\<open>push(host, paths) -> () | TransferError\<close>. An
  \<open>err option\<close> is a Go \<^verbatim>\<open>error\<close>, \<open>None\<close> being \<^verbatim>\<open>nil\<close>. The path functions of the
  standard library (\<^verbatim>\<open>filepath.Abs\<close>, \<^verbatim>\<open>filepath.Dir\<close>, \<^verbatim>\<open>filepath.Join\<close>) and
  \<^verbatim>\<open>os.Getenv\<close> are parameters too, with no history.
\<close>

record world =
  os_Getenv :: "string \<Rightarrow> string"
  filepath_Abs :: "string \<Rightarrow> err + string"
  filepath_Dir :: "string \<Rightarrow> string"
  filepath_Join :: "string \<Rightarrow> string \<Rightarrow> string"
  nix_GetMachines :: "event list \<Rightarrow> string \<Rightarrow> string \<Rightarrow> err + host list"
  filter_MatchHosts :: "host list \<Rightarrow> string \<Rightarrow> err + host list"
  filter_FilterHosts :: "host list \<Rightarrow> int \<Rightarrow> int \<Rightarrow> int \<Rightarrow> host list"
  nix_BuildMachines :: "event list \<Rightarrow> string \<Rightarrow> string \<Rightarrow> host list \<Rightarrow> err + string"
  terminal_ReadPassword :: "event list \<Rightarrow> err + string"
  nix_GetPathsToPush :: "event list \<Rightarrow> host \<Rightarrow> string \<Rightarrow> err + string list"
  nix_Push :: "event list \<Rightarrow> host \<Rightarrow> string list \<Rightarrow> err option"
  secrets_GetSecretSize :: "event list \<Rightarrow> secret \<Rightarrow> string \<Rightarrow> err + nat"
  secrets_UploadSecret :: "event list \<Rightarrow> host \<Rightarrow> string \<Rightarrow> secret \<Rightarrow> string \<Rightarrow> err option"
  nix_GetNixSystemPath :: "event list \<Rightarrow> host \<Rightarrow> string \<Rightarrow> err + string"
  ssh_ActivateConfiguration ::
    "event list \<Rightarrow> host \<Rightarrow> string \<Rightarrow> action \<Rightarrow> string \<Rightarrow> err option"
  healthchecks_Perform :: "event list \<Rightarrow> host \<Rightarrow> int \<Rightarrow> err option"
  vault_Auth :: "event list \<Rightarrow> string \<Rightarrow> string \<Rightarrow> err + client"
  vault_Configure :: "event list \<Rightarrow> client \<Rightarrow> err option"
  vault_CreateOrReKeyHostToken :: "event list \<Rightarrow> client \<Rightarrow> host \<Rightarrow> err + creds"
  os_OpenFile :: "event list \<Rightarrow> string \<Rightarrow> err option"

text \<open>
  The state threaded through the run: the events so far, the local \<^verbatim>\<open>vc\<close> of
  \<^verbatim>\<open>doDeploy\<close> (\<open>None\<close> is \<^verbatim>\<open>nil\<close>), and the paths that exist in the process's temporary
  directory.
\<close>

record state =
  trace :: "event list"
  vc :: "client option"
  files :: "string set"

text \<open>
  The two ways a run stops early: \<^verbatim>\<open>os.Exit(code)\<close>, and a \<^verbatim>\<open>panic\<close> that nothing
  recovers. Either keeps the state reached.
\<close>

datatype stop = Exit int | Panic err

type_synonym 'a outcome = "(stop \<times> state) + 'a"

definition emit :: "event \<Rightarrow> state \<Rightarrow> state" where
  "emit e st = st\<lparr>trace := trace st @ [e]\<rparr>"

definition initState :: state where
  "initState = \<lparr>trace = [], vc = None, files = {}\<rparr>"

section \<open>The activation plan\<close>

text \<open>The package-level flags (lines 46-49) and the switch that sets them (lines 78-101).\<close>

record flags =
  doPush :: bool
  doAskPass :: bool
  doUploadSecrets :: bool
  doActivate :: bool

definition initialFlags :: flags where
  "initialFlags = \<lparr>doPush = False, doAskPass = False, doUploadSecrets = False, doActivate = False\<rparr>"

definition setFlags :: "config \<Rightarrow> flags \<Rightarrow> flags" where
  "setFlags cfg fl =
     (if \<not> dryRun cfg then
        (case switchAction cfg of
           Build \<Rightarrow> fl
         | PushAction \<Rightarrow> fl\<lparr>doPush := True\<rparr>
         | DryActivate \<Rightarrow>
             (let fl1 = fl\<lparr>doPush := True\<rparr>;
                  fl2 = (if deployAskForSudoPasswd cfg then fl1\<lparr>doAskPass := True\<rparr> else fl1)
              in fl2\<lparr>doActivate := True\<rparr>)
         | _ \<Rightarrow> \<comment> \<open>\<^verbatim>\<open>test\<close> and \<^verbatim>\<open>switch\<close> fall through to \<^verbatim>\<open>boot\<close>\<close>
             (let fl1 = fl\<lparr>doPush := True\<rparr>;
                  fl2 = (if deployAskForSudoPasswd cfg then fl1\<lparr>doAskPass := True\<rparr> else fl1)
              in fl2\<lparr>doUploadSecrets := True, doActivate := True\<rparr>))
      else fl)"

section \<open>The secret-service session and the rekeyed credential\<close>

text \<open>\<^verbatim>\<open>printVaultWarning\<close> (lines 253-261): the banner on standard error, one event.\<close>

definition printVaultWarning :: "err \<Rightarrow> state \<Rightarrow> state" where
  "printVaultWarning e st = emit (EvVaultWarning e) st"

text \<open>\<^verbatim>\<open>vaultInit\<close> (lines 187-213). Go's \<^verbatim>\<open>len\<close> of a string counts its bytes.\<close>

definition vaultInit :: "world \<Rightarrow> state \<Rightarrow> client option \<times> state" where
  "vaultInit w st =
     (let addr = os_Getenv w ''VAULT_ADDR'';
          rootToken = os_Getenv w ''VAULT_TOKEN''
      in if length addr > 1 \<and> length rootToken > 1 then
           (case vault_Auth w (trace st) addr rootToken of
              Inl e \<Rightarrow> (None, printVaultWarning e (emit (EvAuth addr rootToken) st))
            | Inr c \<Rightarrow>
                (let st1 = emit (EvAuth addr rootToken) st
                 in case vault_Configure w (trace st1) c of
                      Some e \<Rightarrow> (None, printVaultWarning e (emit (EvConfigure c) st1))
                    | None \<Rightarrow> (Some c, emit (EvConfigure c) st1)))
         else (None, emit EvVaultEnvMissing st))"

text \<open>
  \<^verbatim>\<open>vaultReKey\<close> (lines 215-250). \<^verbatim>\<open>hosts[0]\<close> panics on an empty slice. The file is
  opened with \<^verbatim>\<open>O_WRONLY|O_CREATE|O_TRUNC\<close>, so it exists once the open has succeeded;
  the results of the writes, of \<^verbatim>\<open>Flush\<close>, \<^verbatim>\<open>Sync\<close> and of the deferred \<^verbatim>\<open>Close\<close> are
  not read by the code.
\<close>

definition vaultReKey ::
  "config \<Rightarrow> world \<Rightarrow> client \<Rightarrow> host list \<Rightarrow> state \<Rightarrow> (secret option \<times> state) outcome" where
  "vaultReKey cfg w c hosts st =
     (case hosts of
        [] \<Rightarrow> Inl (Panic ''index out of range'', st)
      | host # _ \<Rightarrow>
          (case vault_CreateOrReKeyHostToken w (trace st) c host of
             Inl e \<Rightarrow> Inr (None, printVaultWarning e (emit (EvReKey c host) st))
           | Inr cr \<Rightarrow>
               (let st1 = emit (EvReKey c host) st;
                    tempFile = tempDir cfg @ ''/vault.env''
                in case os_OpenFile w (trace st1) tempFile of
                     Some e \<Rightarrow> Inr (None, printVaultWarning e (emit (EvOpenFile tempFile) st1))
                   | None \<Rightarrow>
                       (let st2 = (emit (EvOpenFile tempFile) st1)
                                    \<lparr>files := insert tempFile (files st1)\<rparr>;
                            st3 = emit (EvWriteCreds tempFile cr) st2;
                            st4 = emit (EvRekeyedMsg host) st3
                        in Inr (Some \<lparr>Source = tempFile,
                                      Destination = Path (DestinationFile (Vault host)),
                                      Owner = FileOwner (DestinationFile (Vault host)),
                                      Permissions = FilePermissions (DestinationFile (Vault host))\<rparr>,
                                st4)))))"

text \<open>\<^verbatim>\<open>os.Remove\<close>: the path is gone afterwards.\<close>

definition os_Remove :: "string \<Rightarrow> state \<Rightarrow> state" where
  "os_Remove p st = emit (EvRemove p) (st\<lparr>files := files st - {p}\<rparr>)"

text \<open>Lines 124-126: \<^verbatim>\<open>vaultInit\<close> is called while \<^verbatim>\<open>vc\<close> is \<^verbatim>\<open>nil\<close>.\<close>

definition ensureSession :: "world \<Rightarrow> state \<Rightarrow> state" where
  "ensureSession w st =
     (if vc st = None then (case vaultInit w st of (c, s) \<Rightarrow> s\<lparr>vc := c\<rparr>) else st)"

text \<open>
  Lines 122-136 of the loop body of \<^verbatim>\<open>doDeploy\<close>. The result of
  \<^verbatim>\<open>secrets.UploadSecret\<close> on line 131 is an expression statement: it is computed and
  dropped.
\<close>

definition vaultStep :: "config \<Rightarrow> world \<Rightarrow> string \<Rightarrow> host \<Rightarrow> state \<Rightarrow> state outcome" where
  "vaultStep cfg w sudoPasswd host st =
     (if Enable (Vault host) then
        (let st1 = ensureSession w st
         in case vc st1 of
              None \<Rightarrow> Inr st1
            | Some c \<Rightarrow>
                (case vaultReKey cfg w c [host] st1 of
                   Inl a \<Rightarrow> Inl a
                 | Inr (None, st2) \<Rightarrow> Inr st2
                 | Inr (Some secret, st2) \<Rightarrow>
                     (let _ = secrets_UploadSecret w (trace st2) host sudoPasswd secret ''./'';
                          st3 = emit (EvUploadSecret host sudoPasswd secret ''./'') st2
                      in Inr (os_Remove (Source secret) st3))))
      else Inr st)"

section \<open>Push, static secrets, activation\<close>

text \<open>\<^verbatim>\<open>pushPaths\<close> (lines 323-335). Line 333 calls \<^verbatim>\<open>nix.Push\<close> as a statement.\<close>

fun pushPaths :: "world \<Rightarrow> host list \<Rightarrow> string \<Rightarrow> state \<Rightarrow> state outcome" where
  "pushPaths w [] resultPath st = Inr st"
| "pushPaths w (host # hosts) resultPath st =
     (case nix_GetPathsToPush w (trace st) host resultPath of
        Inl e \<Rightarrow> Inl (Panic e, emit (EvGetPathsToPush host) st)
      | Inr paths \<Rightarrow>
          (let st1 = emit (EvGetPathsToPush host) st;
               _ = nix_Push w (trace st1) host paths
           in pushPaths w hosts resultPath (emit (EvPush host paths) st1)))"

text \<open>The inner loop of \<^verbatim>\<open>uploadSecrets\<close> (lines 343-357), over one host's secrets.\<close>

fun uploadHostSecrets ::
  "world \<Rightarrow> host \<Rightarrow> string \<Rightarrow> string \<Rightarrow> (string \<times> secret) list \<Rightarrow> state \<Rightarrow> state outcome" where
  "uploadHostSecrets w host sudoPasswd deploymentDir [] st = Inr st"
| "uploadHostSecrets w host sudoPasswd deploymentDir ((secretName, s) # rest) st =
     (case secrets_GetSecretSize w (trace st) s deploymentDir of
        Inl e \<Rightarrow> Inl (Panic e, emit (EvGetSecretSize s deploymentDir) st)
      | Inr secretSize \<Rightarrow>
          (let st1 = emit (EvGetSecretSize s deploymentDir) st
           in case secrets_UploadSecret w (trace st1) host sudoPasswd s deploymentDir of
                Some e \<Rightarrow>
                  Inl (Panic e,
                       emit EvUploadFailed (emit (EvUploadSecret host sudoPasswd s deploymentDir) st1))
              | None \<Rightarrow>
                  uploadHostSecrets w host sudoPasswd deploymentDir rest
                    (emit (EvUploadSecret host sudoPasswd s deploymentDir) st1)))"

text \<open>\<^verbatim>\<open>uploadSecrets\<close> (lines 337-359).\<close>

fun uploadSecrets_loop ::
  "world \<Rightarrow> string \<Rightarrow> string \<Rightarrow> host list \<Rightarrow> state \<Rightarrow> state outcome" where
  "uploadSecrets_loop w sudoPasswd deploymentDir [] st = Inr st"
| "uploadSecrets_loop w sudoPasswd deploymentDir (host # hosts) st =
     (case uploadHostSecrets w host sudoPasswd deploymentDir (Secrets host) st of
        Inl a \<Rightarrow> Inl a
      | Inr st1 \<Rightarrow> uploadSecrets_loop w sudoPasswd deploymentDir hosts st1)"

definition uploadSecrets :: "config \<Rightarrow> world \<Rightarrow> host list \<Rightarrow> string \<Rightarrow> state \<Rightarrow> state outcome" where
  "uploadSecrets cfg w filteredHosts sudoPasswd st =
     (let deploymentDir = filepath_Dir w (deployDeployment cfg)
      in uploadSecrets_loop w sudoPasswd deploymentDir filteredHosts st)"

text \<open>\<^verbatim>\<open>activateConfiguration\<close> (lines 361-380).\<close>

fun activateConfiguration ::
  "config \<Rightarrow> world \<Rightarrow> host list \<Rightarrow> string \<Rightarrow> string \<Rightarrow> state \<Rightarrow> state outcome" where
  "activateConfiguration cfg w [] resultPath sudoPasswd st = Inr st"
| "activateConfiguration cfg w (host # hosts) resultPath sudoPasswd st =
     (case nix_GetNixSystemPath w (trace st) host resultPath of
        Inl e \<Rightarrow> Inl (Panic e, emit (EvGetNixSystemPath host) st)
      | Inr configuration \<Rightarrow>
          (let st1 = emit (EvGetNixSystemPath host) st
           in case ssh_ActivateConfiguration w (trace st1) host configuration
                     (switchAction cfg) sudoPasswd of
                Some e \<Rightarrow>
                  Inl (Panic e,
                       emit (EvActivate host configuration (switchAction cfg) sudoPasswd) st1)
              | None \<Rightarrow>
                  activateConfiguration cfg w hosts resultPath sudoPasswd
                    (emit (EvActivate host configuration (switchAction cfg) sudoPasswd) st1)))"

section \<open>Host selection and build\<close>

text \<open>\<^verbatim>\<open>getHosts\<close> (lines 263-290); the listing it prints is left out.\<close>

definition getHosts :: "config \<Rightarrow> world \<Rightarrow> string \<Rightarrow> state \<Rightarrow> (err + host list) \<times> state" where
  "getHosts cfg w deployment st =
     (let evalMachinesPath = filepath_Join w (assetRoot cfg) ''eval-machines.nix''
      in case filepath_Abs w deployment of
           Inl e \<Rightarrow> (Inl e, st)
         | Inr deploymentPath \<Rightarrow>
             (let st1 = emit (EvGetMachines evalMachinesPath deploymentPath) st
              in case nix_GetMachines w (trace st) evalMachinesPath deploymentPath of
                   Inl e \<Rightarrow> (Inl e, st1)
                 | Inr allHosts \<Rightarrow>
                     (case filter_MatchHosts w allHosts (selectGlob cfg) of
                        Inl e \<Rightarrow> (Inl e, st1)
                      | Inr matchingHosts \<Rightarrow>
                          (Inr (filter_FilterHosts w matchingHosts (selectSkip cfg)
                                  (selectEvery cfg) (selectLimit cfg)),
                           st1))))"

text \<open>\<^verbatim>\<open>build\<close> (lines 292-312).\<close>

definition build :: "config \<Rightarrow> world \<Rightarrow> state \<Rightarrow> ((host list \<times> string) \<times> state) outcome" where
  "build cfg w st =
     (let evalMachinesPath = filepath_Join w (assetRoot cfg) ''eval-machines.nix''
      in case filepath_Abs w (deployDeployment cfg) of
           Inl e \<Rightarrow> Inl (Panic e, st)
         | Inr deploymentPath \<Rightarrow>
             (case getHosts cfg w (deployDeployment cfg) st of
                (Inl e, st1) \<Rightarrow> Inl (Panic e, st1)
              | (Inr hosts, st1) \<Rightarrow>
                  (case nix_BuildMachines w (trace st1) evalMachinesPath deploymentPath hosts of
                     Inl e \<Rightarrow> Inl (Panic e, emit (EvBuildMachines hosts) st1)
                   | Inr resultPath \<Rightarrow> Inr ((hosts, resultPath), emit (EvBuildMachines hosts) st1))))"

text \<open>\<^verbatim>\<open>askForSudoPassword\<close> (lines 314-321).\<close>

definition askForSudoPassword :: "world \<Rightarrow> state \<Rightarrow> (string \<times> state) outcome" where
  "askForSudoPassword w st =
     (case terminal_ReadPassword w (trace st) of
        Inl e \<Rightarrow> Inl (Panic e, emit EvReadPassword st)
      | Inr bytePassword \<Rightarrow> Inr (bytePassword, emit EvReadPassword st))"

section \<open>The rollout driver\<close>

text \<open>Lines 146-153: the health gate of the deploy loop.\<close>

definition healthGate :: "config \<Rightarrow> world \<Rightarrow> host \<Rightarrow> state \<Rightarrow> state outcome" where
  "healthGate cfg w host st =
     (if \<not> deploySkipHealthChecks cfg then
        (case healthchecks_Perform w (trace st) host (deployHealthCheckTimeout cfg) of
           Some e \<Rightarrow>
             Inl (Exit 1,
                  emit EvHaltMsg (emit (EvHealthCheck host (deployHealthCheckTimeout cfg)) st))
         | None \<Rightarrow> Inr (emit (EvHealthCheck host (deployHealthCheckTimeout cfg)) st))
      else Inr st)"

text \<open>Sequencing of steps that may stop the run.\<close>

definition andThen :: "state outcome \<Rightarrow> (state \<Rightarrow> state outcome) \<Rightarrow> state outcome" where
  "andThen r f = (case r of Inl a \<Rightarrow> Inl a | Inr st \<Rightarrow> f st)"

text \<open>Lines 115-144: what one host receives before its health gate.\<close>

definition applyHost ::
  "config \<Rightarrow> world \<Rightarrow> flags \<Rightarrow> string \<Rightarrow> string \<Rightarrow> host \<Rightarrow> state \<Rightarrow> state outcome" where
  "applyHost cfg w fl resultPath sudoPasswd host st =
     (let singleHostInList = [host]
      in andThen (if doPush fl then pushPaths w singleHostInList resultPath st else Inr st)
        (\<lambda>st1. andThen (vaultStep cfg w sudoPasswd host st1)
        (\<lambda>st2. andThen (if doUploadSecrets fl
                        then uploadSecrets cfg w singleHostInList sudoPasswd st2 else Inr st2)
        (\<lambda>st3. if doActivate fl
               then activateConfiguration cfg w singleHostInList resultPath sudoPasswd st3
               else Inr st3))))"

text \<open>One iteration of the loop of \<^verbatim>\<open>doDeploy\<close> (lines 114-156).\<close>

definition deployHost ::
  "config \<Rightarrow> world \<Rightarrow> flags \<Rightarrow> string \<Rightarrow> string \<Rightarrow> host \<Rightarrow> state \<Rightarrow> state outcome" where
  "deployHost cfg w fl resultPath sudoPasswd host st =
     andThen (applyHost cfg w fl resultPath sudoPasswd host st)
       (\<lambda>st4. andThen (healthGate cfg w host st4)
       (\<lambda>st5. Inr (emit (EvDone host) st5)))"

fun deployLoop ::
  "config \<Rightarrow> world \<Rightarrow> flags \<Rightarrow> string \<Rightarrow> string \<Rightarrow> host list \<Rightarrow> state \<Rightarrow> state outcome" where
  "deployLoop cfg w fl resultPath sudoPasswd [] st = Inr st"
| "deployLoop cfg w fl resultPath sudoPasswd (host # hosts) st =
     andThen (deployHost cfg w fl resultPath sudoPasswd host st)
       (deployLoop cfg w fl resultPath sudoPasswd hosts)"

text \<open>\<^verbatim>\<open>doDeploy\<close> (lines 77-157).\<close>

definition doDeploy :: "config \<Rightarrow> world \<Rightarrow> state \<Rightarrow> state outcome" where
  "doDeploy cfg w st =
     (let fl = setFlags cfg initialFlags
      in case build cfg w st of
           Inl a \<Rightarrow> Inl a
         | Inr ((hosts, resultPath), st1) \<Rightarrow>
             (case (if doAskPass fl then askForSudoPassword w st1 else Inr ('''', st1)) of
                Inl a \<Rightarrow> Inl a
              | Inr (sudoPasswd, st2) \<Rightarrow>
                  deployLoop cfg w fl resultPath sudoPasswd hosts (st2\<lparr>vc := None\<rparr>)))"

text \<open>\<^verbatim>\<open>doHealthCheck\<close> (lines 159-168): the result of each check is dropped.\<close>

fun healthCheckLoop :: "config \<Rightarrow> world \<Rightarrow> host list \<Rightarrow> state \<Rightarrow> state" where
  "healthCheckLoop cfg w [] st = st"
| "healthCheckLoop cfg w (host # hosts) st =
     (let _ = healthchecks_Perform w (trace st) host (healthCheckTimeout cfg)
      in healthCheckLoop cfg w hosts (emit (EvHealthCheck host (healthCheckTimeout cfg)) st))"

definition doHealthCheck :: "config \<Rightarrow> world \<Rightarrow> state \<Rightarrow> state outcome" where
  "doHealthCheck cfg w st =
     (case getHosts cfg w (healthCheckDeployment cfg) st of
        (Inl e, st1) \<Rightarrow> Inl (Panic e, st1)
      | (Inr hosts, st1) \<Rightarrow> Inr (healthCheckLoop cfg w hosts st1))"

text \<open>
  \<^verbatim>\<open>main\<close> (lines 66-75), from the parsed command on: the dispatch, then
  \<^verbatim>\<open>assets.Teardown\<close>. A run starts after \<^verbatim>\<open>init\<close> has found the required
  executables, the unpacked assets and the temporary directory.
\<close>

definition main :: "config \<Rightarrow> world \<Rightarrow> command \<Rightarrow> state \<Rightarrow> state outcome" where
  "main cfg w cmd st =
     andThen (case cmd of Deploy \<Rightarrow> doDeploy cfg w st | CheckHealth \<Rightarrow> doHealthCheck cfg w st)
       (\<lambda>st1. Inr (emit EvTeardown st1))"

section \<open>Reading an outcome and its events\<close>

text \<open>The state a run ends in, however it ends, and the events added between two states.\<close>

definition final :: "state outcome \<Rightarrow> state" where
  "final r = (case r of Inl (_, st) \<Rightarrow> st | Inr st \<Rightarrow> st)"

definition newEvents :: "state \<Rightarrow> state \<Rightarrow> event list" where
  "newEvents st st' = drop (length (trace st)) (trace st')"

text \<open>The host a collaborator call or progress line is addressed to, if any.\<close>

fun eventHost :: "event \<Rightarrow> host option" where
  "eventHost (EvGetPathsToPush h) = Some h"
| "eventHost (EvPush h paths) = Some h"
| "eventHost (EvUploadSecret h pw s dir) = Some h"
| "eventHost (EvGetNixSystemPath h) = Some h"
| "eventHost (EvActivate h conf a pw) = Some h"
| "eventHost (EvHealthCheck h t) = Some h"
| "eventHost (EvReKey c h) = Some h"
| "eventHost (EvRekeyedMsg h) = Some h"
| "eventHost (EvDone h) = Some h"
| "eventHost _ = None"

text \<open>The authenticate/configure pair of the secret service.\<close>

fun sessionCall :: "event \<Rightarrow> bool" where
  "sessionCall (EvAuth addr token) = True"
| "sessionCall (EvConfigure c) = True"
| "sessionCall _ = False"

text \<open>
  The events of the per-host steps for the hosts \<open>hs\<close>, session establishment apart: they
  are addressed to a host of \<open>hs\<close> or to none, and a rekey uses a client that \<open>K\<close> admits.
\<close>

fun stepEvent :: "(client \<Rightarrow> bool) \<Rightarrow> host list \<Rightarrow> event \<Rightarrow> bool" where
  "stepEvent K hs (EvGetMachines a b) = False"
| "stepEvent K hs (EvBuildMachines l) = False"
| "stepEvent K hs EvReadPassword = False"
| "stepEvent K hs (EvAuth a t) = False"
| "stepEvent K hs (EvConfigure c) = False"
| "stepEvent K hs EvVaultEnvMissing = False"
| "stepEvent K hs EvTeardown = False"
| "stepEvent K hs (EvReKey c h) = (K c \<and> h \<in> set hs)"
| "stepEvent K hs e = (case eventHost e of None \<Rightarrow> True | Some h \<Rightarrow> h \<in> set hs)"

definition runEvent :: "host list \<Rightarrow> event \<Rightarrow> bool" where
  "runEvent hs e \<longleftrightarrow> stepEvent (\<lambda>c. True) hs e \<or> sessionCall e \<or> e = EvVaultEnvMissing"

definition prepEvent :: "event \<Rightarrow> bool" where
  "prepEvent e \<longleftrightarrow> e \<noteq> EvTeardown"

text \<open>Relations between a state and a later one, used to carry facts along a run.\<close>

definition grows :: "(event \<Rightarrow> bool) \<Rightarrow> state \<Rightarrow> state \<Rightarrow> bool" where
  "grows P st st' \<longleftrightarrow> (\<exists>evs. trace st' = trace st @ evs \<and> list_all P evs)"

definition appends :: "(event \<Rightarrow> bool) \<Rightarrow> state \<Rightarrow> state \<Rightarrow> bool" where
  "appends P st st' \<longleftrightarrow> (\<exists>evs. st' = st\<lparr>trace := trace st @ evs\<rparr> \<and> list_all P evs)"

definition advances :: "host list \<Rightarrow> state \<Rightarrow> state \<Rightarrow> bool" where
  "advances hs st st' \<longleftrightarrow>
     grows (runEvent hs) st st' \<and>
     (\<forall>c. vc st = Some c \<longrightarrow> vc st' = Some c \<and> grows (stepEvent (\<lambda>x. x = c) hs) st st')"

section \<open>The activation plan as the specification tabulates it\<close>

text \<open>
  The table of the specification, row by row, with the dry-run override first: the
  columns are push, ask for the sudo password, upload secrets, activate.
\<close>

definition spec_plan :: "bool \<Rightarrow> action \<Rightarrow> bool \<Rightarrow> flags" where
  "spec_plan dry mode sudo =
     (if dry then \<lparr>doPush = False, doAskPass = False, doUploadSecrets = False, doActivate = False\<rparr>
      else case mode of
        Build \<Rightarrow> \<lparr>doPush = False, doAskPass = False, doUploadSecrets = False, doActivate = False\<rparr>
      | PushAction \<Rightarrow> \<lparr>doPush = True, doAskPass = False, doUploadSecrets = False, doActivate = False\<rparr>
      | DryActivate \<Rightarrow> \<lparr>doPush = True, doAskPass = sudo, doUploadSecrets = False, doActivate = True\<rparr>
      | Test \<Rightarrow> \<lparr>doPush = True, doAskPass = sudo, doUploadSecrets = True, doActivate = True\<rparr>
      | Switch \<Rightarrow> \<lparr>doPush = True, doAskPass = sudo, doUploadSecrets = True, doActivate = True\<rparr>
      | Boot \<Rightarrow> \<lparr>doPush = True, doAskPass = sudo, doUploadSecrets = True, doActivate = True\<rparr>)"

section \<open>Example inventories and collaborators\<close>

definition exSecret :: secret where
  "exSecret = \<lparr>Source = ''key'', Destination = ''/etc/key'', Owner = ''root'', Permissions = ''0400''\<rparr>"

definition noVault :: vaultOptions where
  "noVault = \<lparr>Enable = False,
     DestinationFile = \<lparr>Path = [], FileOwner = [], FilePermissions = []\<rparr>\<rparr>"

definition withVault :: vaultOptions where
  "withVault = \<lparr>Enable = True,
     DestinationFile = \<lparr>Path = ''/etc/vault.env'', FileOwner = ''root'', FilePermissions = ''0400''\<rparr>\<rparr>"

definition hostA :: host where
  "hostA = \<lparr>TargetHost = ''a'', Secrets = [(''key'', exSecret)], Vault = noVault\<rparr>"

definition hostB :: host where
  "hostB = \<lparr>TargetHost = ''b'', Secrets = [], Vault = noVault\<rparr>"

definition hostC :: host where
  "hostC = \<lparr>TargetHost = ''c'', Secrets = [], Vault = noVault\<rparr>"

definition hostV :: host where
  "hostV = \<lparr>TargetHost = ''v'', Secrets = [], Vault = withVault\<rparr>"

definition hostW :: host where
  "hostW = \<lparr>TargetHost = ''w'', Secrets = [], Vault = withVault\<rparr>"

text \<open>\<^verbatim>\<open>morph deploy net.nix switch\<close> with every flag at its default.\<close>

definition exConfig :: config where
  "exConfig = \<lparr>dryRun = False, selectGlob = ''*'', selectEvery = 1, selectSkip = 0,
     selectLimit = 0, deployDeployment = ''net.nix'', switchAction = Switch,
     deployAskForSudoPasswd = False, deploySkipHealthChecks = False,
     deployHealthCheckTimeout = 0, healthCheckDeployment = ''net.nix'',
     healthCheckTimeout = 0, tempDir = ''/tmp/morph-1'', assetRoot = ''/assets''\<rparr>"

text \<open>
  Collaborators that all succeed, for the inventory \<open>hs\<close>, with both secret-service
  variables set.
\<close>

definition exWorld :: "host list \<Rightarrow> world" where
  "exWorld hs = \<lparr>
     os_Getenv = (\<lambda>k. if k = ''VAULT_ADDR'' then ''http://vault'' else
                      if k = ''VAULT_TOKEN'' then ''root'' else []),
     filepath_Abs = (\<lambda>p. Inr (''/w/'' @ p)),
     filepath_Dir = (\<lambda>p. ''.''),
     filepath_Join = (\<lambda>a b. a @ ''/'' @ b),
     nix_GetMachines = (\<lambda>tr e d. Inr hs),
     filter_MatchHosts = (\<lambda>l g. Inr l),
     filter_FilterHosts = (\<lambda>l s e n. l),
     nix_BuildMachines = (\<lambda>tr e d l. Inr ''/nix/store/r''),
     terminal_ReadPassword = (\<lambda>tr. Inr ''pw''),
     nix_GetPathsToPush = (\<lambda>tr h r. Inr [''/nix/store/p'']),
     nix_Push = (\<lambda>tr h ps. None),
     secrets_GetSecretSize = (\<lambda>tr s d. Inr 3),
     secrets_UploadSecret = (\<lambda>tr h pw s d. None),
     nix_GetNixSystemPath = (\<lambda>tr h r. Inr ''/nix/store/s''),
     ssh_ActivateConfiguration = (\<lambda>tr h c a pw. None),
     healthchecks_Perform = (\<lambda>tr h t. None),
     vault_Auth = (\<lambda>tr a t. Inr (Client 0)),
     vault_Configure = (\<lambda>tr c. None),
     vault_CreateOrReKeyHostToken = (\<lambda>tr c h. Inr \<lparr>Accessor = ''acc'', Token = ''tok''\<rparr>),
     os_OpenFile = (\<lambda>tr p. None)\<rparr>"

text \<open>The same collaborators, with the health checks of the host named \<open>n\<close> failing.\<close>

definition failHealthOn :: "string \<Rightarrow> world \<Rightarrow> world" where
  "failHealthOn n w =
     w\<lparr>healthchecks_Perform := \<lambda>tr h t. if TargetHost h = n then Some ''unhealthy'' else None\<rparr>"

text \<open>A secret service that authenticates and then refuses to be configured.\<close>

definition failConfigure :: "world \<Rightarrow> world" where
  "failConfigure w = w\<lparr>vault_Configure := \<lambda>tr c. Some ''permission denied''\<rparr>"

text \<open>
  A secret service that refuses the first configuration and accepts a client once a
  configure call for it is in the history.
\<close>

definition configureOnRetry :: "world \<Rightarrow> world" where
  "configureOnRetry w =
     w\<lparr>vault_Configure := \<lambda>tr c. if EvConfigure c \<in> set tr then None else Some ''not ready''\<rparr>"

text \<open>A remote transfer that fails for the host named \<open>n\<close>.\<close>

definition failPushOn :: "string \<Rightarrow> world \<Rightarrow> world" where
  "failPushOn n w =
     w\<lparr>nix_Push := \<lambda>tr h ps. if TargetHost h = n then Some ''transfer failed'' else None\<rparr>"

text \<open>Uploads that fail exactly when the base directory is \<^verbatim>\<open>./\<close>, as on line 131.\<close>

definition failDynamicUpload :: "world \<Rightarrow> world" where
  "failDynamicUpload w =
     w\<lparr>secrets_UploadSecret := \<lambda>tr h pw s d. if d = ''./'' then Some ''upload failed'' else None\<rparr>"

text \<open>The credential file of the example configuration, as \<^verbatim>\<open>vaultReKey\<close> returns it.\<close>

definition exCredential :: secret where
  "exCredential = \<lparr>Source = ''/tmp/morph-1/vault.env'', Destination = ''/etc/vault.env'',
     Owner = ''root'', Permissions = ''0400''\<rparr>"

text \<open>What the hosts of a list may be addressed by: events for one of them, or for none.\<close>

definition addressedWithin :: "host list \<Rightarrow> event \<Rightarrow> bool" where
  "addressedWithin hs ev = (case eventHost ev of None \<Rightarrow> True | Some c \<Rightarrow> c \<in> set hs)"

text \<open>
  An event that leaves the session \<open>c\<close> as it is: no authenticate, no configure, and a
  rekey only through \<open>c\<close>.
\<close>

fun reusesSession :: "client \<Rightarrow> event \<Rightarrow> bool" where
  "reusesSession c (EvAuth a t) = False"
| "reusesSession c (EvConfigure c') = False"
| "reusesSession c (EvReKey c' h) = (c' = c)"
| "reusesSession c ev = True"


section \<open>How a run extends its trace\<close>

lemma final_simps [simp]: "final (Inl (s, st)) = st" "final (Inr st) = st"
  by (simp_all add: final_def)

lemma final_andThen:
  "final (andThen r f) = (case r of Inl a \<Rightarrow> final r | Inr st \<Rightarrow> final (f st))"
  by (simp add: andThen_def split: sum.splits)

lemma grows_refl [simp]: "grows P st st"
  unfolding grows_def by (rule exI [of _ "[]"]) simp

lemma grows_trans:
  assumes "grows P a b" and "grows P b c"
  shows "grows P a c"
proof -
  from assms(1) obtain xs where xs: "trace b = trace a @ xs" "list_all P xs"
    unfolding grows_def by blast
  from assms(2) obtain ys where ys: "trace c = trace b @ ys" "list_all P ys"
    unfolding grows_def by blast
  have "trace c = trace a @ (xs @ ys) \<and> list_all P (xs @ ys)"
    using xs ys by simp
  then show ?thesis unfolding grows_def by blast
qed

lemma grows_mono:
  assumes "grows P a b" and "\<And>e. P e \<Longrightarrow> Q e"
  shows "grows Q a b"
  using assms unfolding grows_def by (auto simp: list_all_iff)

lemma grows_emit:
  assumes "P e"
  shows "grows P st (emit e st)"
  unfolding grows_def emit_def using assms by (intro exI [of _ "[e]"]) simp

lemma grows_newEvents:
  "grows P a b \<Longrightarrow> trace b = trace a @ newEvents a b \<and> list_all P (newEvents a b)"
  unfolding grows_def newEvents_def by auto

lemma appends_refl [simp]: "appends P st st"
  unfolding appends_def by (rule exI [of _ "[]"]) simp

lemma appends_trans:
  assumes "appends P a b" and "appends P b c"
  shows "appends P a c"
proof -
  from assms(1) obtain xs where xs: "b = a\<lparr>trace := trace a @ xs\<rparr>" "list_all P xs"
    unfolding appends_def by blast
  from assms(2) obtain ys where ys: "c = b\<lparr>trace := trace b @ ys\<rparr>" "list_all P ys"
    unfolding appends_def by blast
  have "c = a\<lparr>trace := trace a @ (xs @ ys)\<rparr> \<and> list_all P (xs @ ys)"
    using xs ys by simp
  then show ?thesis unfolding appends_def by blast
qed

lemma appends_emit:
  assumes "P e"
  shows "appends P st (emit e st)"
  unfolding appends_def emit_def using assms by (intro exI [of _ "[e]"]) simp

lemma appends_emit2:
  assumes "P e1" and "P e2"
  shows "appends P st (emit e2 (emit e1 st))"
  by (rule appends_trans [where b = "emit e1 st"]) (simp_all add: appends_emit assms)

lemma appends_mono:
  assumes "appends P a b" and "\<And>e. P e \<Longrightarrow> Q e"
  shows "appends Q a b"
  using assms unfolding appends_def by (auto simp: list_all_iff)

lemma appends_vc: "appends P a b \<Longrightarrow> vc b = vc a"
  unfolding appends_def by auto

lemma appends_files: "appends P a b \<Longrightarrow> files b = files a"
  unfolding appends_def by auto

lemma appends_grows: "appends P a b \<Longrightarrow> grows P a b"
  unfolding appends_def grows_def by auto

lemma stepEvent_mono:
  "set hs \<subseteq> set hs' \<Longrightarrow> (\<And>c. K c \<Longrightarrow> K' c) \<Longrightarrow> stepEvent K hs e \<Longrightarrow> stepEvent K' hs' e"
  by (cases e) (auto split: option.splits)

lemma stepEvent_runEvent: "stepEvent K hs e \<Longrightarrow> runEvent hs e"
  unfolding runEvent_def using stepEvent_mono [of hs hs K "\<lambda>c. True" e] by blast

lemma runEvent_mono: "set hs \<subseteq> set hs' \<Longrightarrow> runEvent hs e \<Longrightarrow> runEvent hs' e"
  unfolding runEvent_def using stepEvent_mono [of hs hs' "\<lambda>c. True" "\<lambda>c. True" e] by blast

lemma advances_refl [simp]: "advances hs st st"
  by (simp add: advances_def)

lemma advances_trans:
  assumes "advances hs a b" and "advances hs b c"
  shows "advances hs a c"
  using assms unfolding advances_def by (blast intro: grows_trans)

lemma advances_mono:
  assumes "advances hs a b" and "set hs \<subseteq> set hs'"
  shows "advances hs' a b"
proof -
  have "grows (stepEvent K hs) a b \<Longrightarrow> grows (stepEvent K hs') a b" for K
    using assms(2) by (blast intro: grows_mono stepEvent_mono)
  moreover have "grows (runEvent hs) a b \<Longrightarrow> grows (runEvent hs') a b"
    using assms(2) by (blast intro: grows_mono runEvent_mono)
  ultimately show ?thesis using assms(1) unfolding advances_def by blast
qed

lemma appends_advances:
  assumes "\<And>K. appends (stepEvent K hs) a b"
  shows "advances hs a b"
  unfolding advances_def
  using appends_grows [OF assms] appends_vc [OF assms]
  by (auto intro: grows_mono stepEvent_runEvent)

text \<open>The steps that only add events.\<close>

lemma pushPaths_appends:
  "set hs' \<subseteq> set hs \<Longrightarrow> appends (stepEvent K hs) st (final (pushPaths w hs' rp st))"
proof (induction hs' arbitrary: st)
  case Nil
  then show ?case by simp
next
  case (Cons h hs')
  show ?case
  proof (cases "nix_GetPathsToPush w (trace st) h rp")
    case (Inl e)
    then show ?thesis using Cons.prems by (simp add: appends_emit)
  next
    case (Inr paths)
    have "appends (stepEvent K hs) st (emit (EvPush h paths) (emit (EvGetPathsToPush h) st))"
      using Cons.prems by (simp add: appends_emit2)
    moreover have "appends (stepEvent K hs) (emit (EvPush h paths) (emit (EvGetPathsToPush h) st))
        (final (pushPaths w hs' rp (emit (EvPush h paths) (emit (EvGetPathsToPush h) st))))"
      using Cons.IH Cons.prems by simp
    ultimately show ?thesis using Inr by (simp add: appends_trans)
  qed
qed

lemma uploadHostSecrets_appends:
  "h \<in> set hs \<Longrightarrow> appends (stepEvent K hs) st (final (uploadHostSecrets w h pw dir ss st))"
proof (induction ss arbitrary: st)
  case Nil
  then show ?case by simp
next
  case (Cons p ss)
  obtain name s where p: "p = (name, s)" by (cases p)
  let ?st1 = "emit (EvGetSecretSize s dir) st"
  let ?st2 = "emit (EvUploadSecret h pw s dir) ?st1"
  have a2: "appends (stepEvent K hs) st ?st2"
    using Cons.prems by (simp add: appends_emit2)
  show ?case
  proof (cases "secrets_GetSecretSize w (trace st) s dir")
    case (Inl e)
    then show ?thesis using p by (simp add: appends_emit)
  next
    case (Inr n)
    show ?thesis
    proof (cases "secrets_UploadSecret w (trace ?st1) h pw s dir")
      case (Some e)
      have "appends (stepEvent K hs) st (emit EvUploadFailed ?st2)"
        by (rule appends_trans [OF a2]) (simp add: appends_emit)
      then show ?thesis using p Inr Some by simp
    next
      case None
      have "appends (stepEvent K hs) ?st2 (final (uploadHostSecrets w h pw dir ss ?st2))"
        using Cons.IH Cons.prems by simp
      then show ?thesis using p Inr None a2 by (simp add: appends_trans)
    qed
  qed
qed

lemma uploadSecrets_loop_appends:
  "set hs' \<subseteq> set hs \<Longrightarrow>
   appends (stepEvent K hs) st (final (uploadSecrets_loop w pw dir hs' st))"
proof (induction hs' arbitrary: st)
  case Nil
  then show ?case by simp
next
  case (Cons h hs')
  have h: "appends (stepEvent K hs) st (final (uploadHostSecrets w h pw dir (Secrets h) st))"
    using Cons.prems by (simp add: uploadHostSecrets_appends)
  show ?case
  proof (cases "uploadHostSecrets w h pw dir (Secrets h) st")
    case (Inl a)
    then show ?thesis using h by simp
  next
    case (Inr st1)
    have "appends (stepEvent K hs) st1 (final (uploadSecrets_loop w pw dir hs' st1))"
      using Cons.IH Cons.prems by simp
    then show ?thesis using h Inr by (simp add: appends_trans)
  qed
qed

lemma uploadSecrets_appends:
  "set hs' \<subseteq> set hs \<Longrightarrow> appends (stepEvent K hs) st (final (uploadSecrets cfg w hs' pw st))"
  by (simp add: uploadSecrets_def uploadSecrets_loop_appends)

lemma activateConfiguration_appends:
  "set hs' \<subseteq> set hs \<Longrightarrow>
   appends (stepEvent K hs) st (final (activateConfiguration cfg w hs' rp pw st))"
proof (induction hs' arbitrary: st)
  case Nil
  then show ?case by simp
next
  case (Cons h hs')
  show ?case
  proof (cases "nix_GetNixSystemPath w (trace st) h rp")
    case (Inl e)
    then show ?thesis using Cons.prems by (simp add: appends_emit)
  next
    case (Inr conf)
    let ?st1 = "emit (EvGetNixSystemPath h) st"
    let ?st2 = "emit (EvActivate h conf (switchAction cfg) pw) ?st1"
    have a2: "appends (stepEvent K hs) st ?st2"
      using Cons.prems by (simp add: appends_emit2)
    show ?thesis
    proof (cases "ssh_ActivateConfiguration w (trace ?st1) h conf (switchAction cfg) pw")
      case (Some e)
      then show ?thesis using Inr a2 by simp
    next
      case None
      have "appends (stepEvent K hs) ?st2 (final (activateConfiguration cfg w hs' rp pw ?st2))"
        using Cons.IH Cons.prems by simp
      then show ?thesis using Inr None a2 by (simp add: appends_trans)
    qed
  qed
qed

lemma healthGate_appends:
  "h \<in> set hs \<Longrightarrow> appends (stepEvent K hs) st (final (healthGate cfg w h st))"
  by (simp add: healthGate_def appends_emit appends_emit2 split: option.splits)


lemma grows_emit_step:
  assumes "grows P a b" and "P e"
  shows "grows P a (emit e b)"
  by (rule grows_trans [OF assms(1)]) (simp add: grows_emit assms(2))

lemma grows_upd [simp]:
  "grows P a (b\<lparr>vc := x\<rparr>) = grows P a b"
  "grows P a (b\<lparr>files := y\<rparr>) = grows P a b"
  "grows P (a\<lparr>vc := x\<rparr>) b = grows P a b"
  by (simp_all add: grows_def)

lemma emit_fields [simp]:
  "vc (emit e st) = vc st" "files (emit e st) = files st" "trace (emit e st) = trace st @ [e]"
  by (simp_all add: emit_def)

lemma vaultInit_grows:
  "grows (runEvent hs) st (snd (vaultInit w st)) \<and> vc (snd (vaultInit w st)) = vc st
   \<and> files (snd (vaultInit w st)) = files st"
  by (auto simp: vaultInit_def Let_def printVaultWarning_def runEvent_def
           intro!: grows_emit_step split: sum.splits option.splits)

lemma vaultReKey_single:
  assumes "h \<in> set hs"
  shows "\<exists>so st'. vaultReKey cfg w c [h] st = Inr (so, st')
           \<and> grows (stepEvent (\<lambda>x. x = c) hs) st st' \<and> vc st' = vc st"
  using assms
  by (auto simp: vaultReKey_def Let_def printVaultWarning_def
           intro!: grows_emit_step split: sum.splits option.splits)

lemma ensureSession_grows:
  "grows (runEvent hs) st (ensureSession w st)"
  using vaultInit_grows [of hs st w]
  by (cases "vaultInit w st") (auto simp: ensureSession_def)

lemma ensureSession_kept: "vc st = Some c \<Longrightarrow> ensureSession w st = st"
  by (simp add: ensureSession_def)

lemma vaultStep_returns: "\<exists>st'. vaultStep cfg w pw h st = Inr st'"
  by (auto simp: vaultStep_def vaultReKey_def Let_def split: sum.splits option.splits prod.splits)

lemma vaultStep_advances:
  assumes "h \<in> set hs"
  shows "advances hs st (final (vaultStep cfg w pw h st))"
proof (cases "Enable (Vault h)")
  case False
  then show ?thesis by (simp add: vaultStep_def)
next
  case True
  define st1 where "st1 = ensureSession w st"
  have g1: "grows (runEvent hs) st st1"
    unfolding st1_def by (rule ensureSession_grows)
  have k1: "vc st = Some c \<Longrightarrow> st1 = st" for c
    by (simp add: st1_def ensureSession_kept)
  show ?thesis
  proof (cases "vc st1")
    case None
    then show ?thesis using True g1 k1 unfolding advances_def vaultStep_def st1_def [symmetric]
      by (auto simp: Let_def)
  next
    case (Some c)
    from vaultReKey_single [OF assms, of cfg w c st1]
    obtain so st2 where r: "vaultReKey cfg w c [h] st1 = Inr (so, st2)"
      and g2: "grows (stepEvent (\<lambda>x. x = c) hs) st1 st2" and v2: "vc st2 = vc st1" by blast
    define st3 where "st3 = (case so of None \<Rightarrow> st2
       | Some secret \<Rightarrow> os_Remove (Source secret) (emit (EvUploadSecret h pw secret ''./'') st2))"
    have f: "final (vaultStep cfg w pw h st) = st3"
      using True Some r unfolding vaultStep_def st1_def [symmetric] st3_def
      by (simp add: Let_def split: option.splits)
    have g3: "grows (stepEvent (\<lambda>x. x = c) hs) st2 st3" and v3: "vc st3 = vc st2"
      using assms by (auto simp: st3_def os_Remove_def intro!: grows_emit_step split: option.splits)
    have g13: "grows (stepEvent (\<lambda>x. x = c) hs) st1 st3" by (rule grows_trans [OF g2 g3])
    have "grows (runEvent hs) st st3"
      by (rule grows_trans [OF g1 grows_mono [OF g13 stepEvent_runEvent]])
    moreover have "vc st = Some c' \<Longrightarrow>
        vc st3 = Some c' \<and> grows (stepEvent (\<lambda>x. x = c') hs) st st3" for c'
      using k1 [of c'] g13 v3 v2 Some by simp
    ultimately show ?thesis unfolding advances_def f by blast
  qed
qed

lemma applyHost_advances:
  assumes "h \<in> set hs"
  shows "advances hs st (final (applyHost cfg w fl rp pw h st))"
proof -
  have sub: "set [h] \<subseteq> set hs" using assms by simp
  define r1 where "r1 = (if doPush fl then pushPaths w [h] rp st else Inr st)"
  define f3 where "f3 = (\<lambda>st2. if doUploadSecrets fl
                        then uploadSecrets cfg w [h] pw st2 else Inr st2)"
  define f4 where "f4 = (\<lambda>st3. if doActivate fl
               then activateConfiguration cfg w [h] rp pw st3 else Inr st3)"
  have eq: "applyHost cfg w fl rp pw h st =
      andThen r1 (\<lambda>st1. andThen (vaultStep cfg w pw h st1) (\<lambda>st2. andThen (f3 st2) f4))"
    by (simp add: applyHost_def Let_def r1_def f3_def f4_def)
  have a1: "advances hs st (final r1)"
    unfolding r1_def using pushPaths_appends [OF sub] by (simp add: appends_advances)
  have a3: "advances hs s (final (f3 s))" for s
    unfolding f3_def using uploadSecrets_appends [OF sub] by (simp add: appends_advances)
  have a4: "advances hs s (final (f4 s))" for s
    unfolding f4_def using activateConfiguration_appends [OF sub]
    by (simp add: appends_advances)
  show ?thesis
  proof (cases r1)
    case (Inl a)
    then show ?thesis using a1 by (simp add: eq andThen_def)
  next
    case r1: (Inr st1)
    obtain st2 where v: "vaultStep cfg w pw h st1 = Inr st2"
      using vaultStep_returns by blast
    have a2: "advances hs st1 st2"
      using vaultStep_advances [OF assms, of st1 cfg w pw] v by simp
    have a12: "advances hs st st2"
      using a1 a2 r1 by (auto intro: advances_trans)
    have a13: "advances hs st (final (f3 st2))"
      by (rule advances_trans [OF a12 a3])
    show ?thesis
    proof (cases "f3 st2")
      case (Inl a)
      then show ?thesis using a13 r1 v by (simp add: eq andThen_def)
    next
      case (Inr st3)
      have "advances hs st (final (f4 st3))"
        using a13 a4 [of st3] Inr by (auto intro: advances_trans)
      then show ?thesis using r1 v Inr by (simp add: eq andThen_def)
    qed
  qed
qed

lemma deployHost_advances:
  assumes "h \<in> set hs"
  shows "advances hs st (final (deployHost cfg w fl rp pw h st))"
proof (cases "applyHost cfg w fl rp pw h st")
  case (Inl a)
  then show ?thesis using applyHost_advances [OF assms, of st cfg w fl rp pw]
    by (simp add: deployHost_def andThen_def)
next
  case (Inr st4)
  have a4: "advances hs st st4"
    using applyHost_advances [OF assms, of st cfg w fl rp pw] Inr by simp
  have a5: "advances hs st4 (final (healthGate cfg w h st4))"
    using healthGate_appends [OF assms] by (simp add: appends_advances)
  show ?thesis
  proof (cases "healthGate cfg w h st4")
    case (Inl a)
    then show ?thesis using Inr a4 a5
      by (auto simp: deployHost_def andThen_def intro: advances_trans)
  next
    case (Inr st5)
    have "advances hs st5 (emit (EvDone h) st5)"
      using assms by (simp add: appends_advances appends_emit)
    then show ?thesis using \<open>applyHost cfg w fl rp pw h st = Inr st4\<close> Inr a4 a5
      by (auto simp: deployHost_def andThen_def intro: advances_trans)
  qed
qed

lemma deployLoop_advances:
  "set hs' \<subseteq> set hs \<Longrightarrow> advances hs st (final (deployLoop cfg w fl rp pw hs' st))"
proof (induction hs' arbitrary: st)
  case Nil
  then show ?case by simp
next
  case (Cons h hs')
  have h: "advances hs st (final (deployHost cfg w fl rp pw h st))"
    using Cons.prems by (simp add: deployHost_advances)
  show ?case
  proof (cases "deployHost cfg w fl rp pw h st")
    case (Inl a)
    then show ?thesis using h by (simp add: andThen_def)
  next
    case (Inr st1)
    have "advances hs st1 (final (deployLoop cfg w fl rp pw hs' st1))"
      using Cons.IH Cons.prems by simp
    then show ?thesis using h Inr by (auto simp: andThen_def intro: advances_trans)
  qed
qed

lemma deployLoop_append:
  "deployLoop cfg w fl rp pw (xs @ ys) st =
     andThen (deployLoop cfg w fl rp pw xs st) (deployLoop cfg w fl rp pw ys)"
  by (induction xs arbitrary: st) (simp_all add: andThen_def split: sum.splits)


lemma healthCheckLoop_trace:
  "healthCheckLoop cfg w hosts st =
     st\<lparr>trace := trace st @ map (\<lambda>h. EvHealthCheck h (healthCheckTimeout cfg)) hosts\<rparr>"
  by (induction hosts arbitrary: st) (simp_all add: emit_def)

text \<open>Selection, build and the password prompt never tear the assets down.\<close>

lemma runEvent_prepEvent: "runEvent hs e \<Longrightarrow> prepEvent e"
  by (cases e) (auto simp: runEvent_def prepEvent_def)

lemma getHosts_appends: "appends prepEvent st (snd (getHosts cfg w d st))"
  by (auto simp: getHosts_def Let_def prepEvent_def intro!: appends_emit split: sum.splits)

lemma build_appends:
  "build cfg w st = Inl (s, st') \<Longrightarrow> appends prepEvent st st'"
  "build cfg w st = Inr (x, st') \<Longrightarrow> appends prepEvent st st'"
proof -
  let ?g = "getHosts cfg w (deployDeployment cfg) st"
  have g: "appends prepEvent st (snd ?g)" by (rule getHosts_appends)
  have e: "appends prepEvent st (emit (EvBuildMachines hs) (snd ?g))" for hs
    by (rule appends_trans [OF g]) (simp add: appends_emit prepEvent_def)
  show "build cfg w st = Inl (s, st') \<Longrightarrow> appends prepEvent st st'"
    using g e by (cases ?g) (auto simp: build_def Let_def split: sum.splits)
  show "build cfg w st = Inr (x, st') \<Longrightarrow> appends prepEvent st st'"
    using g e by (cases ?g) (auto simp: build_def Let_def split: sum.splits)
qed

lemma askForSudoPassword_appends:
  "askForSudoPassword w st = Inl (s, st') \<Longrightarrow> appends prepEvent st st'"
  "askForSudoPassword w st = Inr (p, st') \<Longrightarrow> appends prepEvent st st'"
  by (auto simp: askForSudoPassword_def prepEvent_def intro!: appends_emit split: sum.splits)

lemma doDeploy_grows: "grows prepEvent st (final (doDeploy cfg w st))"
proof (cases "build cfg w st")
  case (Inl a)
  then show ?thesis using build_appends(1) [of cfg w st "fst a" "snd a"]
    by (cases a) (simp add: doDeploy_def appends_grows)
next
  case (Inr b)
  obtain hosts rp st1 where b: "b = ((hosts, rp), st1)" by (cases b) auto
  have g1: "grows prepEvent st st1"
    using build_appends(2) [of cfg w st "(hosts, rp)" st1] Inr b by (simp add: appends_grows)
  let ?fl = "setFlags cfg initialFlags"
  let ?ask = "if doAskPass ?fl then askForSudoPassword w st1 else Inr ([], st1)"
  show ?thesis
  proof (cases ?ask)
    case (Inl a)
    then have "grows prepEvent st1 (snd a)"
      using askForSudoPassword_appends(1) [of w st1 "fst a" "snd a"]
      by (cases a) (auto simp: appends_grows split: if_splits)
    then have "grows prepEvent st (snd a)" by (rule grows_trans [OF g1])
    then show ?thesis using Inr b Inl by (cases a) (simp add: doDeploy_def)
  next
    case ask: (Inr p)
    obtain pw st2 where p: "p = (pw, st2)" by (cases p)
    have "grows prepEvent st1 st2"
      using ask p askForSudoPassword_appends(2) [of w st1 pw st2]
      by (auto simp: appends_grows split: if_splits)
    then have g2: "grows prepEvent st st2" by (rule grows_trans [OF g1])
    let ?r = "deployLoop cfg w ?fl rp pw hosts (st2\<lparr>vc := None\<rparr>)"
    have "advances hosts (st2\<lparr>vc := None\<rparr>) (final ?r)"
      by (rule deployLoop_advances) simp
    then have "grows prepEvent st2 (final ?r)"
      unfolding advances_def by (auto intro: grows_mono runEvent_prepEvent)
    then have "grows prepEvent st (final ?r)" by (rule grows_trans [OF g2])
    then show ?thesis using Inr b ask p by (simp add: doDeploy_def)
  qed
qed

lemma doHealthCheck_grows: "grows prepEvent st (final (doHealthCheck cfg w st))"
proof -
  let ?g = "getHosts cfg w (healthCheckDeployment cfg) st"
  have g: "grows prepEvent st (snd ?g)" by (rule appends_grows [OF getHosts_appends])
  have "grows prepEvent st1 (healthCheckLoop cfg w hosts st1)" for hosts st1
    unfolding grows_def healthCheckLoop_trace
    by (auto simp: list_all_iff prepEvent_def)
  then have "grows prepEvent st (healthCheckLoop cfg w hosts (snd ?g))" for hosts
    by (rule grows_trans [OF g])
  then show ?thesis using g by (cases ?g) (auto simp: doHealthCheck_def split: sum.splits)
qed

lemma grows_keeps_absent:
  assumes "grows prepEvent st st'" and "EvTeardown \<notin> set (trace st)"
  shows "EvTeardown \<notin> set (trace st')"
  using assms unfolding grows_def by (auto simp: list_all_iff prepEvent_def)

text \<open>Evaluation of the example inventories.\<close>

lemma ex_hosts [simp]:
  "TargetHost hostA = ''a''" "TargetHost hostB = ''b''" "TargetHost hostC = ''c''"
  "TargetHost hostV = ''v''" "TargetHost hostW = ''w''"
  "Secrets hostA = [(''key'', exSecret)]" "Secrets hostB = []" "Secrets hostC = []"
  "Secrets hostV = []" "Secrets hostW = []"
  "Enable (Vault hostA) = False" "Enable (Vault hostB) = False" "Enable (Vault hostC) = False"
  "Enable (Vault hostV) = True" "Enable (Vault hostW) = True"
  "DestinationFile (Vault hostV) =
     \<lparr>Path = ''/etc/vault.env'', FileOwner = ''root'', FilePermissions = ''0400''\<rparr>"
  "DestinationFile (Vault hostW) =
     \<lparr>Path = ''/etc/vault.env'', FileOwner = ''root'', FilePermissions = ''0400''\<rparr>"
  by (simp_all add: hostA_def hostB_def hostC_def hostV_def hostW_def noVault_def withVault_def)

lemmas run_defs = main_def doDeploy_def build_def getHosts_def askForSudoPassword_def
  deployHost_def applyHost_def healthGate_def vaultStep_def ensureSession_def vaultInit_def
  vaultReKey_def os_Remove_def uploadSecrets_def printVaultWarning_def andThen_def emit_def
  setFlags_def initialFlags_def initState_def Let_def

lemmas ex_defs = exConfig_def exWorld_def failHealthOn_def failConfigure_def failPushOn_def
  failDynamicUpload_def exCredential_def configureOnRetry_def

lemma runEvent_addressedWithin: "runEvent hs e \<Longrightarrow> addressedWithin hs e"
  by (cases e) (auto simp: runEvent_def addressedWithin_def)

lemma stepEvent_reusesSession: "stepEvent (\<lambda>x. x = c) hs e \<Longrightarrow> reusesSession c e"
  by (cases e) auto

lemma halted_run_example:
  "main exConfig (failHealthOn ''b'' (exWorld [hostA, hostB, hostC])) Deploy initState =
   Inl (Exit 1,
     \<lparr>trace = [EvGetMachines ''/assets/eval-machines.nix'' ''/w/net.nix'',
        EvBuildMachines [hostA, hostB, hostC],
        EvGetPathsToPush hostA, EvPush hostA [''/nix/store/p''],
        EvGetSecretSize exSecret ''.'', EvUploadSecret hostA [] exSecret ''.'',
        EvGetNixSystemPath hostA, EvActivate hostA ''/nix/store/s'' Switch [],
        EvHealthCheck hostA 0, EvDone hostA,
        EvGetPathsToPush hostB, EvPush hostB [''/nix/store/p''],
        EvGetNixSystemPath hostB, EvActivate hostB ''/nix/store/s'' Switch [],
        EvHealthCheck hostB 0, EvHaltMsg],
      vc = None, files = {}\<rparr>)"
  by (simp add: run_defs ex_defs)

text \<open>Which steps read the answers of \<^verbatim>\<open>secrets.UploadSecret\<close>.\<close>

lemma vaultInit_upload [simp]:
  "vaultInit (w\<lparr>secrets_UploadSecret := u\<rparr>) st = vaultInit w st"
  by (simp add: vaultInit_def Let_def split: sum.splits option.splits)

lemma ensureSession_upload [simp]:
  "ensureSession (w\<lparr>secrets_UploadSecret := u\<rparr>) st = ensureSession w st"
  by (simp add: ensureSession_def)

lemma vaultReKey_upload [simp]:
  "vaultReKey cfg (w\<lparr>secrets_UploadSecret := u\<rparr>) c hs st = vaultReKey cfg w c hs st"
  by (simp add: vaultReKey_def Let_def split: list.splits sum.splits option.splits)

lemma vaultStep_upload:
  "vaultStep cfg (w\<lparr>secrets_UploadSecret := u\<rparr>) pw h st = vaultStep cfg w pw h st"
  by (simp add: vaultStep_def Let_def split: sum.splits option.splits prod.splits)

lemma pushPaths_upload [simp]:
  "pushPaths (w\<lparr>secrets_UploadSecret := u\<rparr>) hs rp st = pushPaths w hs rp st"
  by (induction hs arbitrary: st) (simp_all add: Let_def split: sum.splits)

lemma activateConfiguration_upload [simp]:
  "activateConfiguration cfg (w\<lparr>secrets_UploadSecret := u\<rparr>) hs rp pw st =
   activateConfiguration cfg w hs rp pw st"
  by (induction hs arbitrary: st) (simp_all add: Let_def split: sum.splits option.splits)

lemma healthGate_upload [simp]:
  "healthGate cfg (w\<lparr>secrets_UploadSecret := u\<rparr>) h st = healthGate cfg w h st"
  by (simp add: healthGate_def split: option.splits)

lemma getHosts_upload [simp]:
  "getHosts cfg (w\<lparr>secrets_UploadSecret := u\<rparr>) d st = getHosts cfg w d st"
  by (simp add: getHosts_def Let_def split: sum.splits)

lemma build_upload [simp]:
  "build cfg (w\<lparr>secrets_UploadSecret := u\<rparr>) st = build cfg w st"
  by (simp add: build_def Let_def split: sum.splits prod.splits)

lemma askForSudoPassword_upload [simp]:
  "askForSudoPassword (w\<lparr>secrets_UploadSecret := u\<rparr>) st = askForSudoPassword w st"
  by (simp add: askForSudoPassword_def split: sum.splits)

lemma healthCheckLoop_upload [simp]:
  "healthCheckLoop cfg (w\<lparr>secrets_UploadSecret := u\<rparr>) hs st = healthCheckLoop cfg w hs st"
  by (simp add: healthCheckLoop_trace)

lemma doHealthCheck_upload [simp]:
  "doHealthCheck cfg (w\<lparr>secrets_UploadSecret := u\<rparr>) st = doHealthCheck cfg w st"
  by (simp add: doHealthCheck_def split: sum.splits prod.splits)

lemma uploadHostSecrets_upload:
  assumes "\<forall>tr h' pw' s. u tr h' pw' s d = secrets_UploadSecret w tr h' pw' s d"
  shows "uploadHostSecrets (w\<lparr>secrets_UploadSecret := u\<rparr>) h pw d ss st =
         uploadHostSecrets w h pw d ss st"
proof (induction ss arbitrary: st)
  case Nil
  show ?case by simp
next
  case (Cons p ss)
  obtain name s where p: "p = (name, s)" by (cases p)
  show ?case
    using Cons.IH assms by (simp add: p Let_def split: sum.splits option.splits)
qed

lemma uploadSecrets_loop_upload:
  assumes "\<forall>tr h' pw' s. u tr h' pw' s d = secrets_UploadSecret w tr h' pw' s d"
  shows "uploadSecrets_loop (w\<lparr>secrets_UploadSecret := u\<rparr>) pw d hs st =
         uploadSecrets_loop w pw d hs st"
  by (induction hs arbitrary: st)
     (simp_all add: uploadHostSecrets_upload [where u = u and w = w and d = d, OF assms]
        split: sum.splits)

lemma deployLoop_upload:
  assumes "\<forall>tr h' pw' s. u tr h' pw' s (filepath_Dir w (deployDeployment cfg)) =
             secrets_UploadSecret w tr h' pw' s (filepath_Dir w (deployDeployment cfg))"
  shows "deployLoop cfg (w\<lparr>secrets_UploadSecret := u\<rparr>) fl rp pw hs st =
         deployLoop cfg w fl rp pw hs st"
proof -
  have up: "uploadSecrets cfg (w\<lparr>secrets_UploadSecret := u\<rparr>) l pw s =
            uploadSecrets cfg w l pw s" for l s
    by (simp add: uploadSecrets_def
          uploadSecrets_loop_upload [where u = u and w = w
            and d = "filepath_Dir w (deployDeployment cfg)", OF assms])
  have host: "deployHost cfg (w\<lparr>secrets_UploadSecret := u\<rparr>) fl rp pw h s =
              deployHost cfg w fl rp pw h s" for h s
    by (simp add: deployHost_def applyHost_def vaultStep_upload up Let_def cong: if_cong)
  show ?thesis
    by (induction hs arbitrary: st) (simp_all add: host andThen_def split: sum.splits)
qed

lemma main_upload:
  assumes "\<forall>tr h' pw' s. u tr h' pw' s (filepath_Dir w (deployDeployment cfg)) =
             secrets_UploadSecret w tr h' pw' s (filepath_Dir w (deployDeployment cfg))"
  shows "main cfg (w\<lparr>secrets_UploadSecret := u\<rparr>) cmd st = main cfg w cmd st"
  by (cases cmd)
     (simp_all add: main_def doDeploy_def Let_def
        deployLoop_upload [where u = u and w = w and cfg = cfg, OF assms]
        split: sum.splits prod.splits)

lemma vaultReKey_creates:
  assumes "vaultReKey cfg w c [h] st = Inr (Some secret, st2)"
  shows "Source secret = tempDir cfg @ ''/vault.env'' \<and> Source secret \<in> files st2"
  using assms
  by (auto simp: vaultReKey_def Let_def printVaultWarning_def split: sum.splits option.splits)

text \<open>The plan that \<^verbatim>\<open>doDeploy\<close> computes, and what is left of a host's steps when it is off.\<close>

lemma setFlags_initial:
  "setFlags cfg initialFlags =
     spec_plan (dryRun cfg) (switchAction cfg) (deployAskForSudoPasswd cfg)"
  by (cases "switchAction cfg") (simp_all add: setFlags_def initialFlags_def spec_plan_def Let_def)

lemma plan_off_leaves_the_vault_step:
  assumes "dryRun cfg \<or> switchAction cfg = Build"
  shows "applyHost cfg w (setFlags cfg initialFlags) rp pw h st = vaultStep cfg w pw h st"
proof -
  have "setFlags cfg initialFlags = initialFlags"
    using assms by (auto simp: setFlags_def)
  then show ?thesis
    by (simp add: applyHost_def initialFlags_def andThen_def split: sum.splits)
qed

lemma vaultStep_not_opted_in: "\<not> Enable (Vault h) \<Longrightarrow> vaultStep cfg w pw h st = Inr st"
  by (simp add: vaultStep_def)

text \<open>The steps whose failure the driver does turn into a panic, and what a stop does to the loop.\<close>

lemma paths_failure_panics:
  "nix_GetPathsToPush w (trace st) h rp = Inl e \<Longrightarrow>
   pushPaths w (h # hs) rp st = Inl (Panic e, emit (EvGetPathsToPush h) st)"
  by simp

lemma upload_failure_panics:
  assumes "secrets_GetSecretSize w (trace st) s d = Inr n"
    and "secrets_UploadSecret w (trace (emit (EvGetSecretSize s d) st)) h pw s d = Some e"
  shows "uploadHostSecrets w h pw d ((name, s) # rest) st =
     Inl (Panic e, emit EvUploadFailed (emit (EvUploadSecret h pw s d) (emit (EvGetSecretSize s d) st)))"
  using assms by simp

lemma activation_failure_panics:
  assumes "nix_GetNixSystemPath w (trace st) h rp = Inr conf"
    and "ssh_ActivateConfiguration w (trace (emit (EvGetNixSystemPath h) st)) h conf
           (switchAction cfg) pw = Some e"
  shows "activateConfiguration cfg w (h # hs) rp pw st =
     Inl (Panic e, emit (EvActivate h conf (switchAction cfg) pw) (emit (EvGetNixSystemPath h) st))"
  using assms by simp

lemma stopped_host_stops_the_loop:
  assumes "deployLoop cfg w fl rp pw pre st = Inr st1"
    and "deployHost cfg w fl rp pw h st1 = Inl a"
  shows "deployLoop cfg w fl rp pw (pre @ h # post) st = Inl a"
  using assms by (simp add: deployLoop_append andThen_def)

text \<open>What a host that opts in does while no session is held.\<close>

lemma ensureSession_absent:
  "vc st = None \<Longrightarrow> ensureSession w st = (snd (vaultInit w st))\<lparr>vc := fst (vaultInit w st)\<rparr>"
  by (simp add: ensureSession_def split: prod.splits)

lemma vaultInit_first_event:
  "take 1 (newEvents st (snd (vaultInit w st))) =
     [if 1 < length (os_Getenv w ''VAULT_ADDR'') \<and> 1 < length (os_Getenv w ''VAULT_TOKEN'')
      then EvAuth (os_Getenv w ''VAULT_ADDR'') (os_Getenv w ''VAULT_TOKEN'')
      else EvVaultEnvMissing]"
  by (auto simp: vaultInit_def Let_def newEvents_def printVaultWarning_def emit_def
           split: sum.splits option.splits)

lemma vaultInit_none_iff:
  "fst (vaultInit w st) = None \<longleftrightarrow>
     length (os_Getenv w ''VAULT_ADDR'') \<le> 1 \<or> length (os_Getenv w ''VAULT_TOKEN'') \<le> 1 \<or>
     (case vault_Auth w (trace st) (os_Getenv w ''VAULT_ADDR'') (os_Getenv w ''VAULT_TOKEN'') of
        Inl e \<Rightarrow> True
      | Inr c \<Rightarrow>
          vault_Configure w
            (trace st @ [EvAuth (os_Getenv w ''VAULT_ADDR'') (os_Getenv w ''VAULT_TOKEN'')]) c
          \<noteq> None)"
  by (auto simp: vaultInit_def Let_def split: sum.splits option.splits)

lemma vaultStep_after_session:
  assumes "Enable (Vault h)"
  shows "vc (final (vaultStep cfg w pw h st)) = vc (ensureSession w st)
       \<and> grows (\<lambda>e. True) (ensureSession w st) (final (vaultStep cfg w pw h st))"
proof (cases "vc (ensureSession w st)")
  case None
  then show ?thesis using assms by (simp add: vaultStep_def Let_def)
next
  case (Some c)
  let ?st1 = "ensureSession w st"
  have "h \<in> set [h]" by simp
  from vaultReKey_single [OF this, of cfg w c ?st1]
  obtain so st2 where r: "vaultReKey cfg w c [h] ?st1 = Inr (so, st2)"
    and g2: "grows (stepEvent (\<lambda>x. x = c) [h]) ?st1 st2" and v2: "vc st2 = vc ?st1" by blast
  define st3 where "st3 = (case so of None \<Rightarrow> st2
     | Some secret \<Rightarrow> os_Remove (Source secret) (emit (EvUploadSecret h pw secret ''./'') st2))"
  have f: "final (vaultStep cfg w pw h st) = st3"
    using assms Some r unfolding vaultStep_def st3_def
    by (simp add: Let_def split: option.splits)
  have g3: "grows (\<lambda>e. True) st2 st3" and v3: "vc st3 = vc st2"
    by (auto simp: st3_def os_Remove_def intro!: grows_emit_step split: option.splits)
  have "grows (\<lambda>e. True) ?st1 st2"
    by (rule grows_mono [OF g2]) simp
  then have "grows (\<lambda>e. True) ?st1 st3"
    using g3 by (rule grows_trans)
  then show ?thesis using f v2 v3 by simp
qed

lemma grows_take:
  assumes "grows P a b"
  shows "take (length (trace a)) (trace b) = trace a"
  using assms unfolding grows_def by auto

lemma vaultStep_without_session:
  assumes "vc st = None" and "Enable (Vault h)"
  shows "vc (final (vaultStep cfg w pw h st)) = fst (vaultInit w st)"
    and "grows (\<lambda>e. True) (snd (vaultInit w st)) (final (vaultStep cfg w pw h st))"
  using vaultStep_after_session [OF assms(2), of cfg w pw st]
  by (simp_all add: ensureSession_absent [OF assms(1)])

lemma deployHost_after_vaultStep:
  assumes "(if doPush fl then pushPaths w [h] rp st else Inr st) = Inr st1"
    and "vaultStep cfg w pw h st1 = Inr st2"
  shows "appends (stepEvent K [h]) st2 (final (deployHost cfg w fl rp pw h st))"
proof -
  have sub: "set [h] \<subseteq> set [h]" by simp
  have mem: "h \<in> set [h]" by simp
  define f3 where "f3 = (\<lambda>s. if doUploadSecrets fl then uploadSecrets cfg w [h] pw s else Inr s)"
  define f4 where "f4 = (\<lambda>s. if doActivate fl
               then activateConfiguration cfg w [h] rp pw s else Inr s)"
  define f5 where "f5 = (\<lambda>s. andThen (healthGate cfg w h s) (\<lambda>s'. Inr (emit (EvDone h) s')))"
  have eq: "deployHost cfg w fl rp pw h st = andThen (andThen (f3 st2) f4) f5"
    using assms by (simp add: deployHost_def applyHost_def Let_def f3_def f4_def f5_def andThen_def)
  have a3: "appends (stepEvent K [h]) s (final (f3 s))" for s
    unfolding f3_def using uploadSecrets_appends [OF sub] by simp
  have a4: "appends (stepEvent K [h]) s (final (f4 s))" for s
    unfolding f4_def using activateConfiguration_appends [OF sub] by simp
  have a5: "appends (stepEvent K [h]) s (final (f5 s))" for s
  proof (cases "healthGate cfg w h s")
    case (Inl a)
    then show ?thesis using healthGate_appends [OF mem, of K s cfg w]
      by (simp add: f5_def andThen_def)
  next
    case (Inr s')
    have "appends (stepEvent K [h]) s s'"
      using healthGate_appends [OF mem, of K s cfg w] Inr by simp
    moreover have "appends (stepEvent K [h]) s' (emit (EvDone h) s')"
      by (simp add: appends_emit)
    ultimately show ?thesis using Inr by (simp add: f5_def andThen_def appends_trans)
  qed
  show ?thesis
  proof (cases "f3 st2")
    case (Inl a)
    then show ?thesis using a3 [of st2] by (simp add: eq andThen_def)
  next
    case s3: (Inr s3)
    have b3: "appends (stepEvent K [h]) st2 s3" using a3 [of st2] s3 by simp
    show ?thesis
    proof (cases "f4 s3")
      case (Inl a)
      have "appends (stepEvent K [h]) st2 (final (f4 s3))"
        by (rule appends_trans [OF b3 a4])
      then show ?thesis using s3 Inl by (simp add: eq andThen_def)
    next
      case (Inr s4)
      have "appends (stepEvent K [h]) st2 s4"
        using appends_trans [OF b3 a4 [of s3]] Inr by simp
      then have "appends (stepEvent K [h]) st2 (final (f5 s4))"
        using a5 [of s4] by (rule appends_trans)
      then show ?thesis using s3 Inr by (simp add: eq andThen_def)
    qed
  qed
qed

lemma deployHost_without_session:
  assumes "vc st = None" and "Enable (Vault h)"
    and "(if doPush fl then pushPaths w [h] rp st else Inr st) = Inr st1"
  shows "vc st1 = None
       \<and> vc (final (deployHost cfg w fl rp pw h st)) = fst (vaultInit w st1)
       \<and> take (length (trace (snd (vaultInit w st1))))
            (trace (final (deployHost cfg w fl rp pw h st))) = trace (snd (vaultInit w st1))"
proof -
  have "appends (stepEvent (\<lambda>c. True) [h]) st (final (pushPaths w [h] rp st))"
    by (rule pushPaths_appends) simp
  then have v1: "vc st1 = None"
    using assms(1,3) by (auto dest: appends_vc split: if_splits)
  obtain st2 where v: "vaultStep cfg w pw h st1 = Inr st2"
    using vaultStep_returns by blast
  have s2: "vc st2 = fst (vaultInit w st1)"
    and g2: "grows (\<lambda>e. True) (snd (vaultInit w st1)) st2"
    using vaultStep_without_session [OF v1 assms(2), where cfg = cfg and w = w and pw = pw] v
    by simp_all
  let ?fin = "final (deployHost cfg w fl rp pw h st)"
  have a: "appends (stepEvent (\<lambda>c. True) [h]) st2 ?fin"
    by (rule deployHost_after_vaultStep [OF assms(3) v])
  have "grows (\<lambda>e. True) st2 ?fin"
    by (rule grows_mono [OF appends_grows [OF a]]) simp
  then have "grows (\<lambda>e. True) (snd (vaultInit w st1)) ?fin"
    by (rule grows_trans [OF g2])
  then show ?thesis using v1 s2 appends_vc [OF a] by (simp add: grows_take)
qed

section \<open>The activation plan\<close>

text \<open>
  Claim C5. The flags that \<^verbatim>\<open>doDeploy\<close> derives from the initial package-level values are
  a function of the dry-run flag, the requested mode and the interactive-sudo flag alone,
  and they are the table of the specification: build gives (no, no, no, no), push gives
  (yes, no, no, no), dry-activate gives (yes, sudo iff requested, no, yes), test, switch
  and boot give (yes, sudo iff requested, yes, yes), and dry-run forces all four to false
  in every mode. It is computed once: the password prompt and the loop over the hosts
  of \<^verbatim>\<open>doDeploy\<close> run under this one value.
\<close>

theorem activation_plan_table:
  "setFlags cfg initialFlags =
     spec_plan (dryRun cfg) (switchAction cfg) (deployAskForSudoPasswd cfg)
   \<and> doDeploy cfg w st =
     (case build cfg w st of
        Inl a \<Rightarrow> Inl a
      | Inr ((hosts, resultPath), st1) \<Rightarrow>
          (case (if doAskPass (spec_plan (dryRun cfg) (switchAction cfg) (deployAskForSudoPasswd cfg))
                 then askForSudoPassword w st1 else Inr ([], st1)) of
             Inl a \<Rightarrow> Inl a
           | Inr (sudoPasswd, st2) \<Rightarrow>
               deployLoop cfg w
                 (spec_plan (dryRun cfg) (switchAction cfg) (deployAskForSudoPasswd cfg))
                 resultPath sudoPasswd hosts (st2\<lparr>vc := None\<rparr>)))"
  by (simp add: doDeploy_def setFlags_initial Let_def)

section \<open>The standalone health-check flow\<close>

text \<open>
  Claim C7. In the \<^verbatim>\<open>check-health\<close> flow, whatever the health checks answer, once the
  hosts are selected the checks of every selected host are run, in order and up to the
  last one, and the flow returns normally: no failing host halts the iteration.
\<close>

theorem check_health_visits_every_host:
  "getHosts cfg w (healthCheckDeployment cfg) st = (Inr hosts, st1) \<Longrightarrow>
   doHealthCheck cfg w st =
     Inr (st1\<lparr>trace := trace st1 @ map (\<lambda>h. EvHealthCheck h (healthCheckTimeout cfg)) hosts\<rparr>)"
  by (simp add: doHealthCheck_def healthCheckLoop_trace)

theorem check_health_visits_every_host_witness:
  "doHealthCheck exConfig
     ((exWorld [hostA, hostB, hostC])\<lparr>healthchecks_Perform := \<lambda>tr h t. Some ''down''\<rparr>) initState =
   Inr \<lparr>trace = [EvGetMachines ''/assets/eval-machines.nix'' ''/w/net.nix'',
                  EvHealthCheck hostA 0, EvHealthCheck hostB 0, EvHealthCheck hostC 0],
        vc = None, files = {}\<rparr>"
proof -
  let ?w = "(exWorld [hostA, hostB, hostC])\<lparr>healthchecks_Perform := \<lambda>tr h t. Some ''down''\<rparr>"
  have sel: "getHosts exConfig ?w (healthCheckDeployment exConfig) initState =
      (Inr [hostA, hostB, hostC], emit (EvGetMachines ''/assets/eval-machines.nix'' ''/w/net.nix'') initState)"
    by (simp add: getHosts_def exConfig_def exWorld_def)
  show ?thesis
    using check_health_visits_every_host [OF sel]
    by (simp add: exConfig_def emit_def initState_def)
qed

section \<open>Asset teardown\<close>

text \<open>
  Claim C10. \<^verbatim>\<open>assets.Teardown\<close> runs only when the dispatched command returns normally:
  when the run stops, by the exit of the health gate or by a panic of any step, the
  teardown call was never made; when it returns, the teardown is the last thing done.
\<close>

theorem teardown_only_after_normal_return:
  "EvTeardown \<notin> set (trace st) \<Longrightarrow>
   (case main cfg w cmd st of
      Inl (s, st') \<Rightarrow> EvTeardown \<notin> set (trace st')
    | Inr st' \<Rightarrow> last (trace st') = EvTeardown)"
proof -
  assume absent: "EvTeardown \<notin> set (trace st)"
  let ?r = "case cmd of Deploy \<Rightarrow> doDeploy cfg w st | CheckHealth \<Rightarrow> doHealthCheck cfg w st"
  have "grows prepEvent st (final ?r)"
    by (cases cmd) (simp_all add: doDeploy_grows doHealthCheck_grows)
  then have "EvTeardown \<notin> set (trace (final ?r))"
    using absent by (rule grows_keeps_absent)
  then show ?thesis
    by (cases ?r) (auto simp: main_def andThen_def)
qed

theorem teardown_only_after_normal_return_witness:
  "isl (main exConfig (failHealthOn ''b'' (exWorld [hostA, hostB, hostC])) Deploy initState) \<and>
   EvTeardown \<notin> set (trace (final
     (main exConfig (failHealthOn ''b'' (exWorld [hostA, hostB, hostC])) Deploy initState)))"
proof -
  let ?r = "main exConfig (failHealthOn ''b'' (exWorld [hostA, hostB, hostC])) Deploy initState"
  have absent: "EvTeardown \<notin> set (trace initState)"
    by (simp add: initState_def)
  obtain s st' where stopped: "?r = Inl (s, st')"
    using halted_run_example by blast
  have "EvTeardown \<notin> set (trace st')"
    using teardown_only_after_normal_return [OF absent, of exConfig
        "failHealthOn ''b'' (exWorld [hostA, hostB, hostC])" Deploy] stopped
    by simp
  then show ?thesis
    using stopped by simp
qed

section \<open>The health gate of the deploy flow\<close>

text \<open>
  Claim C1. In the deploy flow with health checks enabled, let the selected hosts be
  \<open>pre @ h # post\<close>, let the hosts of \<open>pre\<close> complete, and let the health check of \<open>h\<close>
  fail after \<open>h\<close> has received its steps. Then the process exits with status 1 right
  after reporting; the state it ends in is the one reached after the steps of \<open>h\<close> plus
  the failed check and the message, so it does not depend on \<open>post\<close>; what was done for
  \<open>pre\<close> and for \<open>h\<close> remains as a prefix of the final trace, nothing being undone or
  repeated; and every event of the loop is addressed to a host of \<open>pre\<close>, to \<open>h\<close>, or to no
  host, so no later host receives a push, a secret upload or an activation.
\<close>

theorem health_failure_halts_rollout:
  assumes "\<not> deploySkipHealthChecks cfg"
    and "build cfg w st0 = Inr ((pre @ h # post, rp), sb)"
    and "(if doAskPass (setFlags cfg initialFlags)
          then askForSudoPassword w sb else Inr ([], sb)) = Inr (pw, sp)"
    and "deployLoop cfg w (setFlags cfg initialFlags) rp pw pre (sp\<lparr>vc := None\<rparr>) = Inr st1"
    and "applyHost cfg w (setFlags cfg initialFlags) rp pw h st1 = Inr st2"
    and "healthchecks_Perform w (trace st2) h (deployHealthCheckTimeout cfg) = Some e"
  shows "main cfg w Deploy st0 =
           Inl (Exit 1,
                emit EvHaltMsg (emit (EvHealthCheck h (deployHealthCheckTimeout cfg)) st2))
       \<and> trace st1 = trace sp @ newEvents sp st1
       \<and> trace st2 = trace st1 @ newEvents st1 st2
       \<and> list_all (addressedWithin (pre @ [h]))
            (newEvents sp
               (emit EvHaltMsg (emit (EvHealthCheck h (deployHealthCheckTimeout cfg)) st2)))"
proof -
  let ?fl = "setFlags cfg initialFlags"
  let ?t = "deployHealthCheckTimeout cfg"
  let ?fin = "emit EvHaltMsg (emit (EvHealthCheck h ?t) st2)"
  have gate: "healthGate cfg w h st2 = Inl (Exit 1, ?fin)"
    using assms(1,6) by (simp add: healthGate_def)
  have host: "deployHost cfg w ?fl rp pw h st1 = Inl (Exit 1, ?fin)"
    using assms(5) gate by (simp add: deployHost_def andThen_def)
  have loop: "deployLoop cfg w ?fl rp pw (pre @ h # post) (sp\<lparr>vc := None\<rparr>) = Inl (Exit 1, ?fin)"
    using assms(4) host by (simp add: deployLoop_append andThen_def)
  have run: "main cfg w Deploy st0 = Inl (Exit 1, ?fin)"
    using assms(2,3) loop by (simp add: main_def doDeploy_def andThen_def)
  have "advances pre (sp\<lparr>vc := None\<rparr>) (final (deployLoop cfg w ?fl rp pw pre (sp\<lparr>vc := None\<rparr>)))"
    by (rule deployLoop_advances) simp
  then have g1: "grows (runEvent pre) sp st1"
    using assms(4) by (simp add: advances_def)
  have "advances [h] st1 (final (applyHost cfg w ?fl rp pw h st1))"
    by (rule applyHost_advances) simp
  then have g2: "grows (runEvent [h]) st1 st2"
    using assms(5) by (simp add: advances_def)
  have g3: "grows (runEvent [h]) st2 ?fin"
    by (intro grows_emit_step grows_refl) (simp_all add: runEvent_def)
  have "grows (runEvent (pre @ [h])) sp st1"
    by (rule grows_mono [OF g1]) (rule runEvent_mono [of pre], auto)
  moreover have "grows (runEvent (pre @ [h])) st1 ?fin"
    by (rule grows_mono [OF grows_trans [OF g2 g3]]) (rule runEvent_mono [of "[h]"], auto)
  ultimately have "grows (runEvent (pre @ [h])) sp ?fin"
    by (rule grows_trans)
  then have "list_all (runEvent (pre @ [h])) (newEvents sp ?fin)"
    by (simp add: grows_newEvents)
  then have within: "list_all (addressedWithin (pre @ [h])) (newEvents sp ?fin)"
    by (auto simp: list_all_iff intro: runEvent_addressedWithin)
  show ?thesis
    using run grows_newEvents [OF g1] grows_newEvents [OF g2] within by simp
qed

theorem health_failure_halts_rollout_witness:
  "main exConfig (failHealthOn ''b'' (exWorld [hostA, hostB, hostC])) Deploy initState =
     Inl (Exit 1,
       \<lparr>trace = [EvGetMachines ''/assets/eval-machines.nix'' ''/w/net.nix'',
          EvBuildMachines [hostA, hostB, hostC],
          EvGetPathsToPush hostA, EvPush hostA [''/nix/store/p''],
          EvGetSecretSize exSecret ''.'', EvUploadSecret hostA [] exSecret ''.'',
          EvGetNixSystemPath hostA, EvActivate hostA ''/nix/store/s'' Switch [],
          EvHealthCheck hostA 0, EvDone hostA,
          EvGetPathsToPush hostB, EvPush hostB [''/nix/store/p''],
          EvGetNixSystemPath hostB, EvActivate hostB ''/nix/store/s'' Switch [],
          EvHealthCheck hostB 0, EvHaltMsg],
        vc = None, files = {}\<rparr>)"
proof -
  let ?w = "failHealthOn ''b'' (exWorld [hostA, hostB, hostC])"
  let ?t0 = "[EvGetMachines ''/assets/eval-machines.nix'' ''/w/net.nix'',
          EvBuildMachines [hostA, hostB, hostC]]"
  let ?tA = "?t0 @ [EvGetPathsToPush hostA, EvPush hostA [''/nix/store/p''],
          EvGetSecretSize exSecret ''.'', EvUploadSecret hostA [] exSecret ''.'',
          EvGetNixSystemPath hostA, EvActivate hostA ''/nix/store/s'' Switch [],
          EvHealthCheck hostA 0, EvDone hostA]"
  let ?tB = "?tA @ [EvGetPathsToPush hostB, EvPush hostB [''/nix/store/p''],
          EvGetNixSystemPath hostB, EvActivate hostB ''/nix/store/s'' Switch []]"
  let ?sb = "\<lparr>trace = ?t0, vc = None, files = {}\<rparr>"
  let ?st1 = "\<lparr>trace = ?tA, vc = None, files = {}\<rparr>"
  let ?st2 = "\<lparr>trace = ?tB, vc = None, files = {}\<rparr>"
  have enabled: "\<not> deploySkipHealthChecks exConfig"
    by (simp add: exConfig_def)
  have built: "build exConfig ?w initState = Inr (([hostA] @ hostB # [hostC], ''/nix/store/r''), ?sb)"
    by (simp add: run_defs ex_defs)
  have asked: "(if doAskPass (setFlags exConfig initialFlags)
          then askForSudoPassword ?w ?sb else Inr ([], ?sb)) = Inr ([], ?sb)"
    by (simp add: run_defs ex_defs)
  have before: "deployLoop exConfig ?w (setFlags exConfig initialFlags) ''/nix/store/r'' []
      [hostA] (?sb\<lparr>vc := None\<rparr>) = Inr ?st1"
    by (simp add: run_defs ex_defs)
  have applied: "applyHost exConfig ?w (setFlags exConfig initialFlags) ''/nix/store/r'' []
      hostB ?st1 = Inr ?st2"
    by (simp add: run_defs ex_defs)
  have failed: "healthchecks_Perform ?w (trace ?st2) hostB (deployHealthCheckTimeout exConfig)
      = Some ''unhealthy''"
    by (simp add: ex_defs)
  show ?thesis
    using health_failure_halts_rollout [OF enabled built asked before applied failed]
    by (simp add: emit_def exConfig_def)
qed

section \<open>The secret-service session\<close>

text \<open>
  Claim C4, as amended. Once a session has been established (the hosts of \<open>pre\<close> have
  completed and \<^verbatim>\<open>vc\<close> holds the client \<open>c\<close>), it is kept for every later host: however
  the rest of the loop ends, \<^verbatim>\<open>vc\<close> is still \<open>c\<close>, and no later event is an authenticate
  or a configure call, while every later rekey goes through \<open>c\<close>. While no session is
  held, every host that opts in triggers a new attempt: its vault step, and so its
  iteration of the loop once its push step has returned, begins with the events of a
  fresh \<^verbatim>\<open>vaultInit\<close>, whose first event is the authenticate call when both credentials are
  longer than one byte and the request to set them otherwise, and leaves \<^verbatim>\<open>vc\<close> at what
  that \<^verbatim>\<open>vaultInit\<close> returned. An attempt returns no session exactly when a credential
  is absent, or authenticate fails, or configure fails; so the pair can be invoked more
  than once in one invocation.
\<close>

theorem established_session_is_reused:
  "(deployLoop cfg w fl rp pw pre st = Inr st1 \<and> vc st1 = Some c \<longrightarrow>
      vc (final (deployLoop cfg w fl rp pw (pre @ post) st)) = Some c
    \<and> trace (final (deployLoop cfg w fl rp pw (pre @ post) st)) =
        trace st1 @ newEvents st1 (final (deployLoop cfg w fl rp pw (pre @ post) st))
    \<and> list_all (reusesSession c)
        (newEvents st1 (final (deployLoop cfg w fl rp pw (pre @ post) st))))
   \<and> (vc s = None \<and> Enable (Vault h) \<longrightarrow>
        vc (final (vaultStep cfg w pw h s)) = fst (vaultInit w s)
      \<and> take (length (trace (snd (vaultInit w s)))) (trace (final (vaultStep cfg w pw h s)))
          = trace (snd (vaultInit w s)))
   \<and> (vc s = None \<and> Enable (Vault h)
        \<and> (if doPush fl then pushPaths w [h] rp s else Inr s) = Inr s1 \<longrightarrow>
        vc s1 = None
      \<and> vc (final (deployHost cfg w fl rp pw h s)) = fst (vaultInit w s1)
      \<and> take (length (trace (snd (vaultInit w s1))))
           (trace (final (deployHost cfg w fl rp pw h s))) = trace (snd (vaultInit w s1)))
   \<and> take 1 (newEvents s (snd (vaultInit w s))) =
        [if 1 < length (os_Getenv w ''VAULT_ADDR'') \<and> 1 < length (os_Getenv w ''VAULT_TOKEN'')
         then EvAuth (os_Getenv w ''VAULT_ADDR'') (os_Getenv w ''VAULT_TOKEN'')
         else EvVaultEnvMissing]
   \<and> (fst (vaultInit w s) = None \<longleftrightarrow>
        length (os_Getenv w ''VAULT_ADDR'') \<le> 1 \<or> length (os_Getenv w ''VAULT_TOKEN'') \<le> 1 \<or>
        (case vault_Auth w (trace s) (os_Getenv w ''VAULT_ADDR'') (os_Getenv w ''VAULT_TOKEN'') of
           Inl e \<Rightarrow> True
         | Inr c' \<Rightarrow>
             vault_Configure w
               (trace s @ [EvAuth (os_Getenv w ''VAULT_ADDR'') (os_Getenv w ''VAULT_TOKEN'')]) c'
             \<noteq> None))"
proof -
  let ?fin = "final (deployLoop cfg w fl rp pw (pre @ post) st)"
  have kept: "vc ?fin = Some c \<and> trace ?fin = trace st1 @ newEvents st1 ?fin
      \<and> list_all (reusesSession c) (newEvents st1 ?fin)"
    if pre: "deployLoop cfg w fl rp pw pre st = Inr st1" and held: "vc st1 = Some c"
  proof -
    have fin: "?fin = final (deployLoop cfg w fl rp pw post st1)"
      using pre by (simp add: deployLoop_append andThen_def)
    have "advances post st1 (final (deployLoop cfg w fl rp pw post st1))"
      by (rule deployLoop_advances) simp
    then have v: "vc ?fin = Some c" and g: "grows (stepEvent (\<lambda>x. x = c) post) st1 ?fin"
      using held fin by (simp_all add: advances_def)
    have "list_all (stepEvent (\<lambda>x. x = c) post) (newEvents st1 ?fin)"
      using g by (simp add: grows_newEvents)
    then have "list_all (reusesSession c) (newEvents st1 ?fin)"
      by (auto simp: list_all_iff intro: stepEvent_reusesSession)
    then show ?thesis using v grows_newEvents [OF g] by simp
  qed
  have step: "vc (final (vaultStep cfg w pw h s)) = fst (vaultInit w s)
      \<and> take (length (trace (snd (vaultInit w s)))) (trace (final (vaultStep cfg w pw h s)))
          = trace (snd (vaultInit w s))"
    if "vc s = None" and "Enable (Vault h)"
    using vaultStep_without_session [OF that, where cfg = cfg and w = w and pw = pw]
    by (simp add: grows_take)
  have host: "vc s1 = None
      \<and> vc (final (deployHost cfg w fl rp pw h s)) = fst (vaultInit w s1)
      \<and> take (length (trace (snd (vaultInit w s1))))
           (trace (final (deployHost cfg w fl rp pw h s))) = trace (snd (vaultInit w s1))"
    if "vc s = None" and "Enable (Vault h)"
      and "(if doPush fl then pushPaths w [h] rp s else Inr s) = Inr s1"
    by (rule deployHost_without_session [OF that])
  show ?thesis
    using kept step host vaultInit_first_event [of s w] vaultInit_none_iff [of w s]
    by blast
qed

theorem established_session_is_reused_witness:
  "vc (final (vaultStep exConfig (configureOnRetry (exWorld [hostV, hostW, hostV])) [] hostV
        initState)) = None
   \<and> vc (final (deployHost exConfig (configureOnRetry (exWorld [hostV, hostW, hostV]))
        (setFlags exConfig initialFlags) ''/nix/store/r'' [] hostV initState)) = None
   \<and> vc (final (deployLoop exConfig (configureOnRetry (exWorld [hostV, hostW, hostV]))
        (setFlags exConfig initialFlags) ''/nix/store/r'' [] ([hostV, hostW] @ [hostV])
        initState)) = Some (Client 0)
   \<and> list_all (reusesSession (Client 0))
       (newEvents
          \<lparr>trace = [EvGetPathsToPush hostV, EvPush hostV [''/nix/store/p''],
             EvAuth ''http://vault'' ''root'', EvConfigure (Client 0),
             EvVaultWarning ''not ready'',
             EvGetNixSystemPath hostV, EvActivate hostV ''/nix/store/s'' Switch [],
             EvHealthCheck hostV 0, EvDone hostV,
             EvGetPathsToPush hostW, EvPush hostW [''/nix/store/p''],
             EvAuth ''http://vault'' ''root'', EvConfigure (Client 0),
             EvReKey (Client 0) hostW, EvOpenFile ''/tmp/morph-1/vault.env'',
             EvWriteCreds ''/tmp/morph-1/vault.env'' \<lparr>Accessor = ''acc'', Token = ''tok''\<rparr>,
             EvRekeyedMsg hostW, EvUploadSecret hostW [] exCredential ''./'',
             EvRemove ''/tmp/morph-1/vault.env'',
             EvGetNixSystemPath hostW, EvActivate hostW ''/nix/store/s'' Switch [],
             EvHealthCheck hostW 0, EvDone hostW],
           vc = Some (Client 0), files = {}\<rparr>
          (final (deployLoop exConfig (configureOnRetry (exWorld [hostV, hostW, hostV]))
             (setFlags exConfig initialFlags) ''/nix/store/r'' [] ([hostV, hostW] @ [hostV])
             initState)))"
proof -
  let ?w = "configureOnRetry (exWorld [hostV, hostW, hostV])"
  let ?fl = "setFlags exConfig initialFlags"
  let ?s1 = "\<lparr>trace = [EvGetPathsToPush hostV, EvPush hostV [''/nix/store/p'']],
            vc = None, files = {}\<rparr>"
  let ?st1 = "\<lparr>trace = [EvGetPathsToPush hostV, EvPush hostV [''/nix/store/p''],
             EvAuth ''http://vault'' ''root'', EvConfigure (Client 0),
             EvVaultWarning ''not ready'',
             EvGetNixSystemPath hostV, EvActivate hostV ''/nix/store/s'' Switch [],
             EvHealthCheck hostV 0, EvDone hostV,
             EvGetPathsToPush hostW, EvPush hostW [''/nix/store/p''],
             EvAuth ''http://vault'' ''root'', EvConfigure (Client 0),
             EvReKey (Client 0) hostW, EvOpenFile ''/tmp/morph-1/vault.env'',
             EvWriteCreds ''/tmp/morph-1/vault.env'' \<lparr>Accessor = ''acc'', Token = ''tok''\<rparr>,
             EvRekeyedMsg hostW, EvUploadSecret hostW [] exCredential ''./'',
             EvRemove ''/tmp/morph-1/vault.env'',
             EvGetNixSystemPath hostW, EvActivate hostW ''/nix/store/s'' Switch [],
             EvHealthCheck hostW 0, EvDone hostW],
           vc = Some (Client 0), files = {}\<rparr>"
  have first: "deployLoop exConfig ?w ?fl ''/nix/store/r'' [] [hostV, hostW] initState = Inr ?st1"
    by (simp add: run_defs ex_defs)
  have held: "vc ?st1 = Some (Client 0)"
    by simp
  have absent: "vc initState = None"
    by (simp add: initState_def)
  have opted: "Enable (Vault hostV)"
    by simp
  have pushed: "(if doPush ?fl then pushPaths ?w [hostV] ''/nix/store/r'' initState
                 else Inr initState) = Inr ?s1"
    by (simp add: run_defs ex_defs)
  have refused: "fst (vaultInit ?w initState) = None" "fst (vaultInit ?w ?s1) = None"
    by (simp_all add: run_defs ex_defs)
  show ?thesis
    using established_session_is_reused [where cfg = exConfig and w = ?w and fl = ?fl
        and rp = "''/nix/store/r''" and pw = "[]" and pre = "[hostV, hostW]" and st = initState
        and ?st1.0 = ?st1 and c = "Client 0" and post = "[hostV]" and s = initState
        and h = hostV and ?s1.0 = ?s1]
      first held absent opted pushed refused
    by simp
qed

text \<open>
  Claim C4 as first stated fails: when configuration is refused, the session stays
  \<^verbatim>\<open>nil\<close> and the second host that opts in authenticates and configures again, so the
  pair is invoked twice in one invocation.
\<close>

theorem session_pair_repeated_counterexample:
  "filter sessionCall
     (trace (final (doDeploy exConfig (failConfigure (exWorld [hostV, hostW])) initState))) =
   [EvAuth ''http://vault'' ''root'', EvConfigure (Client 0),
    EvAuth ''http://vault'' ''root'', EvConfigure (Client 0)]"
  by (simp add: run_defs ex_defs)

text \<open>
  Claim C9. \<^verbatim>\<open>vaultInit\<close> attempts authentication exactly when both environment values
  are longer than one byte, and then with these two values; when either has length at
  most 1 it only prints the request to set the variables and returns no session.
\<close>

theorem vault_credentials_length_gate:
  "((\<exists>a t. EvAuth a t \<in> set (newEvents st (snd (vaultInit w st)))) \<longleftrightarrow>
      1 < length (os_Getenv w ''VAULT_ADDR'') \<and> 1 < length (os_Getenv w ''VAULT_TOKEN''))
   \<and> (EvAuth (os_Getenv w ''VAULT_ADDR'') (os_Getenv w ''VAULT_TOKEN'')
         \<in> set (newEvents st (snd (vaultInit w st))) \<longleftrightarrow>
      1 < length (os_Getenv w ''VAULT_ADDR'') \<and> 1 < length (os_Getenv w ''VAULT_TOKEN''))
   \<and> (length (os_Getenv w ''VAULT_ADDR'') \<le> 1 \<or> length (os_Getenv w ''VAULT_TOKEN'') \<le> 1 \<longrightarrow>
        vaultInit w st = (None, emit EvVaultEnvMissing st))"
  by (auto simp: vaultInit_def Let_def newEvents_def printVaultWarning_def emit_def
           split: sum.splits option.splits)

theorem vault_credentials_length_gate_witness:
  "vaultInit ((exWorld [])\<lparr>os_Getenv := \<lambda>k. if k = ''VAULT_ADDR'' then ''x'' else ''root''\<rparr>)
     initState = (None, emit EvVaultEnvMissing initState)"
  using vault_credentials_length_gate [of initState
      "(exWorld [])\<lparr>os_Getenv := \<lambda>k. if k = ''VAULT_ADDR'' then ''x'' else ''root''\<rparr>"]
  by simp

section \<open>The rekeyed credential\<close>

text \<open>
  Claim C6. For a host that opts in, with a session at hand and a rekey that succeeded
  and wrote the credential file, the file exists when the upload is attempted and is
  removed right after the attempt, whatever the upload answers: the step ends with the
  upload call followed by the removal, and the file is not among the existing paths
  afterwards.
\<close>

theorem rekeyed_credential_file_removed:
  assumes "Enable (Vault h)" and "vc (ensureSession w st) = Some c"
    and "vaultReKey cfg w c [h] (ensureSession w st) = Inr (Some secret, st2)"
  shows "Source secret \<in> files st2
       \<and> (\<forall>u. vaultStep cfg (w\<lparr>secrets_UploadSecret := u\<rparr>) pw h st =
                Inr (os_Remove (Source secret) (emit (EvUploadSecret h pw secret ''./'') st2)))
       \<and> (\<forall>u. Source secret \<notin> files (final (vaultStep cfg (w\<lparr>secrets_UploadSecret := u\<rparr>) pw h st)))"
proof -
  have step: "vaultStep cfg w pw h st =
      Inr (os_Remove (Source secret) (emit (EvUploadSecret h pw secret ''./'') st2))"
    using assms by (simp add: vaultStep_def Let_def)
  have gone: "Source secret \<notin> files (os_Remove (Source secret) s)" for s
    by (simp add: os_Remove_def)
  show ?thesis
    using vaultReKey_creates [OF assms(3)] step gone by (auto simp: vaultStep_upload)
qed

theorem rekeyed_credential_file_removed_witness:
  "vaultStep exConfig (failDynamicUpload (exWorld [hostV])) [] hostV initState =
     Inr \<lparr>trace = [EvAuth ''http://vault'' ''root'', EvConfigure (Client 0),
            EvReKey (Client 0) hostV, EvOpenFile ''/tmp/morph-1/vault.env'',
            EvWriteCreds ''/tmp/morph-1/vault.env'' \<lparr>Accessor = ''acc'', Token = ''tok''\<rparr>,
            EvRekeyedMsg hostV, EvUploadSecret hostV [] exCredential ''./'',
            EvRemove ''/tmp/morph-1/vault.env''],
          vc = Some (Client 0), files = {}\<rparr>
   \<and> ''/tmp/morph-1/vault.env'' \<notin> files (final
        (vaultStep exConfig (failDynamicUpload (exWorld [hostV])) [] hostV initState))"
proof -
  let ?w = "exWorld [hostV]"
  let ?st2 = "\<lparr>trace = [EvAuth ''http://vault'' ''root'', EvConfigure (Client 0),
            EvReKey (Client 0) hostV, EvOpenFile ''/tmp/morph-1/vault.env'',
            EvWriteCreds ''/tmp/morph-1/vault.env'' \<lparr>Accessor = ''acc'', Token = ''tok''\<rparr>,
            EvRekeyedMsg hostV],
          vc = Some (Client 0), files = {''/tmp/morph-1/vault.env''}\<rparr>"
  have opted: "Enable (Vault hostV)" by simp
  have session: "vc (ensureSession ?w initState) = Some (Client 0)"
    by (simp add: run_defs ex_defs)
  have rekeyed: "vaultReKey exConfig ?w (Client 0) [hostV] (ensureSession ?w initState) =
      Inr (Some exCredential, ?st2)"
    by (simp add: run_defs ex_defs)
  show ?thesis
    using rekeyed_credential_file_removed [OF opted session rekeyed, of "[]"]
    by (simp add: failDynamicUpload_def os_Remove_def emit_def exCredential_def)
qed

text \<open>
  Claim C8. The answer of the upload of the rekeyed credential is dropped. The step
  around it always returns normally and is the same whatever the uploads answer, so a
  failure there stops nothing and prints nothing; and a whole run is the same for two
  upload collaborators that differ only on calls with base directory \<^verbatim>\<open>./\<close>, the one of
  line 131, as long as the directory of the deployment file is not written that way
  (\<^verbatim>\<open>filepath.Dir\<close> returns a cleaned path, which never ends in a slash after a dot).
\<close>

theorem dynamic_upload_result_is_dropped:
  "vaultStep cfg (w\<lparr>secrets_UploadSecret := u\<rparr>) pw h st = vaultStep cfg w pw h st
   \<and> \<not> isl (vaultStep cfg w pw h st)
   \<and> ((\<forall>tr h' pw' s d. d \<noteq> ''./'' \<longrightarrow> u tr h' pw' s d = secrets_UploadSecret w tr h' pw' s d)
        \<and> filepath_Dir w (deployDeployment cfg) \<noteq> ''./''
      \<longrightarrow> main cfg (w\<lparr>secrets_UploadSecret := u\<rparr>) cmd st0 = main cfg w cmd st0)"
proof -
  have "\<not> isl (vaultStep cfg w pw h st)"
    using vaultStep_returns [of cfg w pw h st] by auto
  then show ?thesis
    by (simp add: vaultStep_upload main_upload)
qed

theorem dynamic_upload_result_is_dropped_witness:
  "main exConfig
     ((failDynamicUpload (exWorld [hostV, hostA]))\<lparr>secrets_UploadSecret := \<lambda>tr h pw s d. None\<rparr>)
     Deploy initState =
   main exConfig (failDynamicUpload (exWorld [hostV, hostA])) Deploy initState"
proof -
  let ?w = "failDynamicUpload (exWorld [hostV, hostA])"
  have agree: "\<forall>tr h' pw' s d. d \<noteq> ''./'' \<longrightarrow>
      (\<lambda>tr h pw s d. None) tr h' pw' s d = secrets_UploadSecret ?w tr h' pw' s d"
    by (simp add: failDynamicUpload_def)
  have dir: "filepath_Dir ?w (deployDeployment exConfig) \<noteq> ''./''"
    by (simp add: ex_defs)
  show ?thesis
    using dynamic_upload_result_is_dropped [where cfg = exConfig and w = ?w
        and u = "\<lambda>tr h pw s d. None" and pw = "[]" and h = hostV and st = initState
        and cmd = Deploy and ?st0.0 = initState] agree dir
    by blast
qed

section \<open>Steps that the mode does not gate, results that the driver does not read\<close>

text \<open>
  Claim C2 does not hold of the code: the block of lines 122-136 is not under any of
  the four flags. With \<^verbatim>\<open>--dry-run\<close> and mode \<^verbatim>\<open>switch\<close>, and likewise in mode \<^verbatim>\<open>build\<close>,
  a host that opts into dynamic credentials has its token rekeyed and receives one
  \<^verbatim>\<open>secrets.UploadSecret\<close> call.
\<close>

theorem dry_run_uploads_rekeyed_credential:
  "doDeploy (exConfig\<lparr>dryRun := True\<rparr>) (exWorld [hostV]) initState =
     Inr \<lparr>trace = [EvGetMachines ''/assets/eval-machines.nix'' ''/w/net.nix'',
            EvBuildMachines [hostV],
            EvAuth ''http://vault'' ''root'', EvConfigure (Client 0),
            EvReKey (Client 0) hostV, EvOpenFile ''/tmp/morph-1/vault.env'',
            EvWriteCreds ''/tmp/morph-1/vault.env'' \<lparr>Accessor = ''acc'', Token = ''tok''\<rparr>,
            EvRekeyedMsg hostV, EvUploadSecret hostV [] exCredential ''./'',
            EvRemove ''/tmp/morph-1/vault.env'',
            EvHealthCheck hostV 0, EvDone hostV],
          vc = Some (Client 0), files = {}\<rparr>
   \<and> doDeploy (exConfig\<lparr>switchAction := Build\<rparr>) (exWorld [hostV]) initState =
       doDeploy (exConfig\<lparr>dryRun := True\<rparr>) (exWorld [hostV]) initState"
  by (simp add: run_defs ex_defs)

text \<open>
  Claim C3 does not hold of the code for the remote transfer: \<^verbatim>\<open>pushPaths\<close> does not read
  what \<^verbatim>\<open>nix.Push\<close> returns. When the transfer to the first of two hosts fails, that host
  still gets its secrets, its activation and its health check, the second host is
  deployed, and the run completes.
\<close>

theorem push_failure_does_not_stop_the_run:
  "(\<forall>tr ps. nix_Push (failPushOn ''a'' (exWorld [hostA, hostB])) tr hostA ps
             = Some ''transfer failed'')
   \<and> main exConfig (failPushOn ''a'' (exWorld [hostA, hostB])) Deploy initState =
     Inr \<lparr>trace = [EvGetMachines ''/assets/eval-machines.nix'' ''/w/net.nix'',
            EvBuildMachines [hostA, hostB],
            EvGetPathsToPush hostA, EvPush hostA [''/nix/store/p''],
            EvGetSecretSize exSecret ''.'', EvUploadSecret hostA [] exSecret ''.'',
            EvGetNixSystemPath hostA, EvActivate hostA ''/nix/store/s'' Switch [],
            EvHealthCheck hostA 0, EvDone hostA,
            EvGetPathsToPush hostB, EvPush hostB [''/nix/store/p''],
            EvGetNixSystemPath hostB, EvActivate hostB ''/nix/store/s'' Switch [],
            EvHealthCheck hostB 0, EvDone hostB,
            EvTeardown],
          vc = None, files = {}\<rparr>"
  by (simp add: run_defs ex_defs)

end
